theory Spec2Isabelle
  imports Main "HOL-Library.AList" "HOL-Library.Char_ord" "HOL-Library.List_Lexorder"
begin

section \<open>The rewind extension (index.ts): strings and ref names\<close>

text \<open>
  JavaScript strings are modelled as \<open>string\<close> (a list of characters, one per code
  unit below 256). The helpers below are the String methods the extension calls:
  \<open>startsWith\<close>, \<open>includes\<close>, \<open>replace\<close> with a string pattern (which replaces the
  first occurrence only), and the template conversion of a non-negative integer.
\<close>

definition REF_PREFIX :: string where
  "REF_PREFIX = ''refs/pi-checkpoints/''"

definition BEFORE_RESTORE_PREFIX :: string where
  "BEFORE_RESTORE_PREFIX = ''before-restore-''"

definition MAX_CHECKPOINTS :: nat where
  "MAX_CHECKPOINTS = 100"

definition startsWith :: "string \<Rightarrow> string \<Rightarrow> bool" where
  "startsWith s p = (take (length p) s = p)"

fun includes_str :: "string \<Rightarrow> string \<Rightarrow> bool" where
  "includes_str [] p = (p = [])"
| "includes_str (c # s) p = (startsWith (c # s) p \<or> includes_str s p)"

fun replace_first :: "string \<Rightarrow> string \<Rightarrow> string \<Rightarrow> string" where
  "replace_first [] p r = (if p = [] then r else [])"
| "replace_first (c # s) p r =
     (if startsWith (c # s) p then r @ drop (length p) (c # s)
      else c # replace_first s p r)"

definition is_digit :: "char \<Rightarrow> bool" where
  "is_digit c = (CHR ''0'' \<le> c \<and> c \<le> CHR ''9'')"

definition is_ref_safe :: "char \<Rightarrow> bool" where
  "is_ref_safe c =
     ((CHR ''a'' \<le> c \<and> c \<le> CHR ''z'') \<or> (CHR ''A'' \<le> c \<and> c \<le> CHR ''Z'') \<or>
      is_digit c \<or> c = CHR ''-'')"

text \<open>\<open>sanitizeForRef(id)\<close>: \<open>id.replace(/[^a-zA-Z0-9-]/g, "_")\<close>.\<close>

definition sanitizeForRef :: "string \<Rightarrow> string" where
  "sanitizeForRef ident = map (\<lambda>c. if is_ref_safe c then c else CHR ''_'') ident"

text \<open>The decimal digits of a number, as a template literal prints a timestamp.\<close>

definition digit_char :: "nat \<Rightarrow> char" where
  "digit_char d = ''0123456789'' ! d"

function show_nat :: "nat \<Rightarrow> string" where
  "show_nat n = (if n < 10 then [digit_char n] else show_nat (n div 10) @ [digit_char (n mod 10)])"
  by pat_completeness auto
termination
  by (relation "measure id") auto

declare show_nat.simps [simp del]

text \<open>
  The regular expression \<open>/^checkpoint-(\d+)-(.+)$/\<close>: the digits are the longest run
  after the marker (the next character must be a hyphen, which is no digit), and the
  rest is non-empty and free of line terminators, which \<open>.\<close> does not match. The
  result is the pair of the two groups.
\<close>

definition is_line_terminator :: "char \<Rightarrow> bool" where
  "is_line_terminator c = (c = CHR 0x0A \<or> c = CHR 0x0D)"

definition match_checkpoint :: "string \<Rightarrow> (string \<times> string) option" where
  "match_checkpoint cid =
     (if startsWith cid ''checkpoint-'' then
        (let rest = drop (length ''checkpoint-'') cid;
             ds = takeWhile is_digit rest
         in case dropWhile is_digit rest of
              [] \<Rightarrow> None
            | c # e \<Rightarrow>
                if ds \<noteq> [] \<and> c = CHR ''-'' \<and> e \<noteq> [] \<and> \<not> list_ex is_line_terminator e
                then Some (ds, e) else None)
      else None)"


section \<open>The repository and the host\<close>

text \<open>
  A commit is modelled by what the extension can observe of it: the tree it snapshots
  and its creation date in seconds, the key of \<open>--sort=creatordate\<close>. Commit ids are
  content addresses, so the commit itself stands for its SHA. A tree maps the paths of
  the files that \<open>git add -A\<close> sees to their contents.
\<close>

type_synonym tree = "string \<rightharpoonup> string"

record commit =
  ctree :: tree
  cdate :: nat

text \<open>The first argument of \<open>git checkout\<close>: a ref name or a commit id.\<close>

datatype target = ByRef string | BySha commit

text \<open>
  The git invocations of index.ts. \<open>ForEachRef\<close> is the listing of
  \<open>refs/pi-checkpoints/\<close> sorted by creation date; \<open>ForEachRefBackup\<close> is the query of
  \<open>findBeforeRestoreRef\<close> (\<open>--sort=-creatordate --count=1\<close> on the pattern
  \<open>refs/pi-checkpoints/before-restore-*\<close>); \<open>CaptureTree\<close> stands for the three
  \<open>execAsync\<close> calls of \<open>captureWorktree\<close> on its throwaway index
  (\<open>add -A\<close>, \<open>write-tree\<close>, \<open>commit-tree\<close>).
\<close>

datatype cmd =
    RevParseInside
  | RevParseTopLevel
  | ForEachRef
  | ForEachRefBackup
  | UpdateRef string commit
  | DeleteRef string
  | Checkout target
  | CaptureTree

text \<open>
  What a command prints, already split as the caller splits it: the listing as the list
  of its lines, the backup query as its one line of two fields, the capture as the commit
  it made. \<open>Quiet\<close> is empty output.
\<close>

datatype stdout =
    Names "string list"
  | Latest "(string \<times> commit) option"
  | Text string
  | Made commit
  | Quiet

datatype ui_event =
    SetStatus "nat option"
  | Notify string string
  | Select "string list"

text \<open>
  The repository and the terminal as the extension meets them: the refs with their
  commits, the files of the working tree, whether the process runs inside the work tree
  of the repository (the commands on refs also work in its git directory, the commands
  on files do not), the top-level directory, the commands run so far and what the UI has
  shown so far.
\<close>

record world =
  refs :: "(string \<times> commit) list"
  worktree :: tree
  inside_work_tree :: bool
  toplevel :: string
  trace :: "cmd list"
  shown :: "ui_event list"

text \<open>
  The environment of one handler run. \<open>now\<close> is the clock in milliseconds
  (\<open>Date.now()\<close>; a commit made at that moment is dated \<open>now div 1000\<close>). \<open>broken c\<close>
  says that command \<open>c\<close> fails in this run for a reason outside the model (a lock, the
  disk). \<open>report c\<close> says how \<open>ExecFn\<close> ends when the command fails: its promise
  rejects, or it resolves with a non-zero \<open>code\<close> and empty output; index.ts never
  reads \<open>code\<close>.
\<close>

datatype report = Rejects | Resolves

record env =
  now :: nat
  broken :: "cmd \<Rightarrow> bool"
  report :: "cmd \<Rightarrow> report"

subsection \<open>What git does\<close>

definition is_backup_ref :: "string \<Rightarrow> bool" where
  "is_backup_ref n =
     (startsWith n (REF_PREFIX @ BEFORE_RESTORE_PREFIX) \<and>
      CHR ''/'' \<notin> set (drop (length (REF_PREFIX @ BEFORE_RESTORE_PREFIX)) n))"

text \<open>
  \<open>for-each-ref\<close> compares by the sort key and breaks ties by ref name, ascending;
  sorting by name first and then stably by date gives that order.
\<close>

definition for_each_ref :: "(string \<times> commit) list \<Rightarrow> string list" where
  "for_each_ref rs =
     map fst (sort_key (\<lambda>r. cdate (snd r)) (sort_key fst
       (filter (\<lambda>r. startsWith (fst r) REF_PREFIX) rs)))"

fun newest :: "(string \<times> commit) list \<Rightarrow> (string \<times> commit) option" where
  "newest [] = None"
| "newest (x # xs) =
     (case newest xs of
        None \<Rightarrow> Some x
      | Some y \<Rightarrow> if cdate (snd x) < cdate (snd y) then Some y else Some x)"

definition latest_backup :: "(string \<times> commit) list \<Rightarrow> (string \<times> commit) option" where
  "latest_backup rs = newest (sort_key fst (filter (\<lambda>r. is_backup_ref (fst r)) rs))"

definition resolve :: "target \<Rightarrow> world \<Rightarrow> commit option" where
  "resolve t w = (case t of ByRef n \<Rightarrow> map_of (refs w) n | BySha c \<Rightarrow> Some c)"

text \<open>
  \<open>git checkout <tree-ish> -- .\<close> runs in git's default overlay mode: it writes every
  file of the tree-ish over the working tree and never removes a file that the tree-ish
  does not have. It fails outside a work tree, when the tree-ish does not resolve, and
  when its tree is empty (the pathspec \<open>.\<close> then matches no file). \<open>git add -A\<close>, the
  first command of the capture, fails outside a work tree. The process runs at the top
  level of the work tree, so that the pathspec \<open>.\<close> covers all of it. \<open>None\<close> is a
  command git cannot perform.
\<close>

definition git :: "env \<Rightarrow> cmd \<Rightarrow> world \<Rightarrow> (stdout \<times> world) option" where
  "git e c w =
     (case c of
        RevParseInside \<Rightarrow> if inside_work_tree w then Some (Text ''true'', w) else None
      | RevParseTopLevel \<Rightarrow> if inside_work_tree w then Some (Text (toplevel w), w) else None
      | ForEachRef \<Rightarrow> Some (Names (for_each_ref (refs w)), w)
      | ForEachRefBackup \<Rightarrow> Some (Latest (latest_backup (refs w)), w)
      | UpdateRef n k \<Rightarrow> Some (Quiet, w\<lparr>refs := AList.update n k (refs w)\<rparr>)
      | DeleteRef n \<Rightarrow> Some (Quiet, w\<lparr>refs := AList.delete n (refs w)\<rparr>)
      | Checkout t \<Rightarrow>
          (case resolve t w of
             None \<Rightarrow> None
           | Some k \<Rightarrow>
               if \<not> inside_work_tree w \<or> ctree k = Map.empty then None
               else Some (Quiet, w\<lparr>worktree := worktree w ++ ctree k\<rparr>))
      | CaptureTree \<Rightarrow>
          if inside_work_tree w
          then Some (Made \<lparr>ctree = worktree w, cdate = now e div 1000\<rparr>, w)
          else None)"

text \<open>
  \<open>ExecFn\<close>: the command is recorded in the trace and runs unless it is broken. The
  result \<open>None\<close> is a rejected promise; \<open>Some out\<close> is a resolved one.
\<close>

definition exec :: "env \<Rightarrow> cmd \<Rightarrow> world \<Rightarrow> stdout option \<times> world" where
  "exec e c w =
     (let w1 = w\<lparr>trace := trace w @ [c]\<rparr> in
      case (if broken e c then None else git e c w1) of
        Some (out, w2) \<Rightarrow> (Some out, w2)
      | None \<Rightarrow> (case report e c of Rejects \<Rightarrow> (None, w1) | Resolves \<Rightarrow> (Some Quiet, w1)))"

definition stdout_names :: "stdout \<Rightarrow> string list" where
  "stdout_names out = (case out of Names ns \<Rightarrow> ns | _ \<Rightarrow> [])"

definition stdout_latest :: "stdout \<Rightarrow> (string \<times> commit) option" where
  "stdout_latest out = (case out of Latest l \<Rightarrow> l | _ \<Rightarrow> None)"

definition stdout_text :: "stdout \<Rightarrow> string" where
  "stdout_text out = (case out of Text t \<Rightarrow> t | _ \<Rightarrow> [])"

text \<open>
  \<open>execAsync\<close> (the promisified \<open>child_process.exec\<close>) rejects whenever the command
  fails, whatever \<open>report\<close> says of \<open>ExecFn\<close>.
\<close>

definition execAsync :: "env \<Rightarrow> cmd \<Rightarrow> world \<Rightarrow> stdout option \<times> world" where
  "execAsync e c w =
     (let w1 = w\<lparr>trace := trace w @ [c]\<rparr> in
      case (if broken e c then None else git e c w1) of
        Some (out, w2) \<Rightarrow> (Some out, w2)
      | None \<Rightarrow> (None, w1))"

section \<open>The extension\<close>

text \<open>
  The closure variables of index.ts. \<open>checkpoints\<close> is the JavaScript \<open>Map\<close> from
  sanitized entry id to checkpoint id (the ref name without \<open>REF_PREFIX\<close>), kept as
  an association list with distinct keys: \<open>Map.set\<close> is \<open>AList.update\<close> (a new key goes
  last, an old one keeps its place), \<open>Map.delete\<close> is \<open>AList.delete\<close>, \<open>Map.get\<close> is
  \<open>map_of\<close> and \<open>Map.size\<close> is the length.
\<close>

record ext =
  checkpoints :: "(string \<times> string) list"
  resumeCheckpoint :: "string option"
  repoRoot :: "string option"
  isGitRepo :: bool
  pendingCheckpoint :: "(commit \<times> nat) option"

text \<open>An entry of the session branch: its id, its type and the role of its message.\<close>

record entry =
  entry_id :: string
  entry_type :: string
  message_role :: "string option"

text \<open>
  The extension context: whether a UI is attached, the current branch from the root to
  the leaf (\<open>None\<close> when \<open>getLeafId()\<close> is null), and what the user answers to a menu.
\<close>

record ctx =
  hasUI :: bool
  branch :: "entry list option"
  select :: "string list \<Rightarrow> string option"

record turn_event =
  turnIndex :: nat
  timestamp :: nat

definition notify :: "string \<Rightarrow> string \<Rightarrow> world \<Rightarrow> world" where
  "notify msg level w = w\<lparr>shown := shown w @ [Notify msg level]\<rparr>"

definition updateStatus :: "ctx \<Rightarrow> ext \<Rightarrow> world \<Rightarrow> world" where
  "updateStatus cx s w =
     (if \<not> hasUI cx then w
      else w\<lparr>shown := shown w @ [SetStatus (Some (length (checkpoints s)))]\<rparr>)"

definition resetState :: "ext \<Rightarrow> ext" where
  "resetState s =
     s\<lparr>checkpoints := [], resumeCheckpoint := None, repoRoot := None,
       isGitRepo := False, pendingCheckpoint := None\<rparr>"

subsection \<open>rebuildCheckpointsMap\<close>

definition rebuild_step :: "string \<Rightarrow> (string \<times> string) list \<Rightarrow> (string \<times> string) list" where
  "rebuild_step ref m =
     (let checkpointId = replace_first ref REF_PREFIX [] in
      if \<not> startsWith checkpointId ''checkpoint-'' then m
      else if startsWith checkpointId ''checkpoint-resume-'' then m
      else case match_checkpoint checkpointId of
             Some (ts, entryId) \<Rightarrow> AList.update entryId checkpointId m
           | None \<Rightarrow> m)"

definition rebuildCheckpointsMap :: "env \<Rightarrow> ext \<Rightarrow> world \<Rightarrow> ext \<times> world" where
  "rebuildCheckpointsMap e s w =
     (case exec e ForEachRef w of
        (None, w1) \<Rightarrow> (s, w1)
      | (Some out, w1) \<Rightarrow>
          (s\<lparr>checkpoints := fold rebuild_step (stdout_names out) (checkpoints s)\<rparr>, w1))"

text \<open>
  The mapping that the specification derives from a listing, in its words: a ref counts
  if it is a turn checkpoint (neither a resume nor a before-restore ref) whose name
  decodes; for an entry id, the ref with the latest creation time wins, which is the
  last one of the listing, since the listing is in creation order.
\<close>

definition decode_ref :: "string \<Rightarrow> (string \<times> string) option" where
  "decode_ref ref =
     (let checkpointId = replace_first ref REF_PREFIX [] in
      if startsWith checkpointId ''checkpoint-'' \<and> \<not> startsWith checkpointId ''checkpoint-resume-''
      then map_option (\<lambda>(ts, entryId). (entryId, checkpointId)) (match_checkpoint checkpointId)
      else None)"

definition derived_map :: "string list \<Rightarrow> string \<Rightarrow> string option" where
  "derived_map listing entryId =
     (case filter (\<lambda>ref. map_option fst (decode_ref ref) = Some entryId) (rev listing) of
        [] \<Rightarrow> None
      | ref # older \<Rightarrow> map_option snd (decode_ref ref))"

subsection \<open>findBeforeRestoreRef, getRepoRoot, captureWorktree\<close>

definition findBeforeRestoreRef :: "env \<Rightarrow> world \<Rightarrow> (string \<times> commit) option \<times> world" where
  "findBeforeRestoreRef e w =
     (case exec e ForEachRefBackup w of
        (None, w1) \<Rightarrow> (None, w1)
      | (Some out, w1) \<Rightarrow> (stdout_latest out, w1))"

text \<open>The first component is \<open>None\<close> when the call throws.\<close>

definition getRepoRoot :: "env \<Rightarrow> ext \<Rightarrow> world \<Rightarrow> string option \<times> ext \<times> world" where
  "getRepoRoot e s w =
     (if repoRoot s \<noteq> None \<and> repoRoot s \<noteq> Some [] then (repoRoot s, s, w)
      else case exec e RevParseTopLevel w of
             (None, w1) \<Rightarrow> (None, s, w1)
           | (Some out, w1) \<Rightarrow> (Some (stdout_text out), s\<lparr>repoRoot := Some (stdout_text out)\<rparr>, w1))"

definition captureWorktree :: "env \<Rightarrow> ext \<Rightarrow> world \<Rightarrow> commit option \<times> ext \<times> world" where
  "captureWorktree e s w =
     (case getRepoRoot e s w of
        (None, s1, w1) \<Rightarrow> (None, s1, w1)
      | (Some root, s1, w1) \<Rightarrow>
          (case execAsync e CaptureTree w1 of
             (Some (Made k), w2) \<Rightarrow> (Some k, s1, w2)
           | (_, w2) \<Rightarrow> (None, s1, w2)))"

subsection \<open>restoreWithBackup and createCheckpointFromWorktree\<close>

text \<open>
  Each \<open>None\<close> below is an exception that reaches the \<open>catch\<close> of the function, which
  notifies and returns \<open>false\<close>.
\<close>

definition restoreWithBackup :: "env \<Rightarrow> target \<Rightarrow> ext \<Rightarrow> world \<Rightarrow> bool \<times> ext \<times> world" where
  "restoreWithBackup e targetRef s w =
     (case findBeforeRestoreRef e w of (existingBackup, w1) \<Rightarrow>
      case captureWorktree e s w1 of
        (None, s2, w2) \<Rightarrow> (False, s2, notify ''Failed to restore'' ''error'' w2)
      | (Some backupCommit, s2, w2) \<Rightarrow>
          (let newBackupId = BEFORE_RESTORE_PREFIX @ show_nat (now e) in
           case exec e (UpdateRef (REF_PREFIX @ newBackupId) backupCommit) w2 of
             (None, w3) \<Rightarrow> (False, s2, notify ''Failed to restore'' ''error'' w3)
           | (Some out3, w3) \<Rightarrow>
               (case (case existingBackup of
                        None \<Rightarrow> (Some Quiet, w3)
                      | Some (refName, commitSha) \<Rightarrow> exec e (DeleteRef refName) w3) of
                  (None, w4) \<Rightarrow> (False, s2, notify ''Failed to restore'' ''error'' w4)
                | (Some out4, w4) \<Rightarrow>
                    (case exec e (Checkout targetRef) w4 of
                       (None, w5) \<Rightarrow> (False, s2, notify ''Failed to restore'' ''error'' w5)
                     | (Some out5, w5) \<Rightarrow> (True, s2, w5)))))"

definition createCheckpointFromWorktree :: "env \<Rightarrow> string \<Rightarrow> ext \<Rightarrow> world \<Rightarrow> bool \<times> ext \<times> world" where
  "createCheckpointFromWorktree e checkpointId s w =
     (case captureWorktree e s w of
        (None, s1, w1) \<Rightarrow> (False, s1, w1)
      | (Some commitSha, s1, w1) \<Rightarrow>
          (case exec e (UpdateRef (REF_PREFIX @ checkpointId) commitSha) w1 of
             (None, w2) \<Rightarrow> (False, s1, w2)
           | (Some out, w2) \<Rightarrow> (True, s1, w2)))"

subsection \<open>findUserMessageEntry\<close>

text \<open>The last entry of the branch that is a message of the user.\<close>

definition is_user_message :: "entry \<Rightarrow> bool" where
  "is_user_message en = (entry_type en = ''message'' \<and> message_role en = Some ''user'')"

definition findUserMessageEntry :: "ctx \<Rightarrow> entry option" where
  "findUserMessageEntry cx =
     (case branch cx of
        None \<Rightarrow> None
      | Some b \<Rightarrow> (case filter is_user_message (rev b) of [] \<Rightarrow> None | en # rest \<Rightarrow> Some en))"

subsection \<open>pruneCheckpoints\<close>

text \<open>
  The second half of the loop body: the entry of the deleted ref leaves the map only if
  the map still holds exactly this checkpoint id for it.
\<close>

definition unmap :: "string \<Rightarrow> ext \<Rightarrow> ext" where
  "unmap ref s =
     (let checkpointId = replace_first ref REF_PREFIX [] in
      case match_checkpoint checkpointId of
        Some (ts, entryId) \<Rightarrow>
          if map_of (checkpoints s) entryId = Some checkpointId
          then s\<lparr>checkpoints := AList.delete entryId (checkpoints s)\<rparr>
          else s
      | None \<Rightarrow> s)"

text \<open>The loop over \<open>toDelete\<close>; a rejected delete leaves the loop through the \<open>catch\<close>.\<close>

fun prune_loop :: "env \<Rightarrow> string list \<Rightarrow> ext \<Rightarrow> world \<Rightarrow> ext \<times> world" where
  "prune_loop e [] s w = (s, w)"
| "prune_loop e (ref # rest) s w =
     (case exec e (DeleteRef ref) w of
        (None, w1) \<Rightarrow> (s, w1)
      | (Some out, w1) \<Rightarrow> prune_loop e rest (unmap ref s) w1)"

definition is_checkpoint_ref :: "string \<Rightarrow> bool" where
  "is_checkpoint_ref r =
     (\<not> includes_str r BEFORE_RESTORE_PREFIX \<and> \<not> includes_str r ''checkpoint-resume-'')"

definition pruneCheckpoints :: "env \<Rightarrow> ext \<Rightarrow> world \<Rightarrow> ext \<times> world" where
  "pruneCheckpoints e s w =
     (case exec e ForEachRef w of
        (None, w1) \<Rightarrow> (s, w1)
      | (Some out, w1) \<Rightarrow>
          (let checkpointRefs = filter is_checkpoint_ref (stdout_names out) in
           if length checkpointRefs > MAX_CHECKPOINTS
           then prune_loop e (take (length checkpointRefs - MAX_CHECKPOINTS) checkpointRefs) s w1
           else (s, w1)))"

subsection \<open>initializeForSession\<close>

definition initializeForSession :: "ctx \<Rightarrow> env \<Rightarrow> ext \<Rightarrow> world \<Rightarrow> ext \<times> world" where
  "initializeForSession cx e s w =
     (if \<not> hasUI cx then (s, w)
      else case exec e RevParseInside w of (r, w1) \<Rightarrow>
        (let s1 = (resetState s)\<lparr>isGitRepo :=
                    (case r of None \<Rightarrow> False | Some out \<Rightarrow> stdout_text out = ''true'')\<rparr>
         in if \<not> isGitRepo s1 then (s1, w1\<lparr>shown := shown w1 @ [SetStatus None]\<rparr>)
            else case rebuildCheckpointsMap e s1 w1 of (s2, w2) \<Rightarrow>
              (let checkpointId = ''checkpoint-resume-'' @ show_nat (now e) in
               case createCheckpointFromWorktree e checkpointId s2 w2 of (success, s3, w3) \<Rightarrow>
                 (let s4 = (if success then s3\<lparr>resumeCheckpoint := Some checkpointId\<rparr> else s3)
                  in (s4, updateStatus cx s4 w3)))))"

subsection \<open>The turn handlers\<close>

definition turn_start :: "ctx \<Rightarrow> env \<Rightarrow> turn_event \<Rightarrow> ext \<Rightarrow> world \<Rightarrow> ext \<times> world" where
  "turn_start cx e ev s w =
     (if \<not> hasUI cx then (s, w)
      else if \<not> isGitRepo s then (s, w)
      else if turnIndex ev \<noteq> 0 then (s, w)
      else case captureWorktree e s w of
             (None, s1, w1) \<Rightarrow> (s1\<lparr>pendingCheckpoint := None\<rparr>, w1)
           | (Some commitSha, s1, w1) \<Rightarrow>
               (s1\<lparr>pendingCheckpoint := Some (commitSha, timestamp ev)\<rparr>, w1))"

text \<open>
  Once the \<open>try\<close> block is entered, the \<open>finally\<close> clause clears the pending slot on
  every path.
\<close>

definition turn_end :: "ctx \<Rightarrow> env \<Rightarrow> turn_event \<Rightarrow> ext \<Rightarrow> world \<Rightarrow> ext \<times> world" where
  "turn_end cx e ev s w =
     (if \<not> hasUI cx then (s, w)
      else if \<not> isGitRepo s then (s, w)
      else case pendingCheckpoint s of
        None \<Rightarrow> (s, w)
      | Some (commitSha, ts) \<Rightarrow>
          if turnIndex ev \<noteq> 0 then (s, w)
          else case findUserMessageEntry cx of
            None \<Rightarrow> (s\<lparr>pendingCheckpoint := None\<rparr>, w)
          | Some userEntry \<Rightarrow>
              (let sanitizedEntryId = sanitizeForRef (entry_id userEntry);
                   checkpointId = ''checkpoint-'' @ show_nat ts @ ''-'' @ sanitizedEntryId
               in case exec e (UpdateRef (REF_PREFIX @ checkpointId) commitSha) w of
                    (None, w1) \<Rightarrow> (s\<lparr>pendingCheckpoint := None\<rparr>, w1)
                  | (Some out, w1) \<Rightarrow>
                      (let s1 = s\<lparr>checkpoints :=
                                  AList.update sanitizedEntryId checkpointId (checkpoints s)\<rparr>;
                           countBeforePrune = length (checkpoints s1)
                       in case pruneCheckpoints e s1 w1 of (s2, w2) \<Rightarrow>
                            (s2\<lparr>pendingCheckpoint := None\<rparr>,
                             notify (''Checkpoint '' @ show_nat countBeforePrune @ '' saved'') ''info''
                               (updateStatus cx s2 w2)))))"

subsection \<open>The session_before_branch handler\<close>

datatype hook_result = NoResult | Cancel | SkipConversationRestore | TypeError

text \<open>JavaScript truthiness of an optional string: neither undefined nor empty.\<close>

definition truthy :: "string option \<Rightarrow> bool" where
  "truthy x = (x \<noteq> None \<and> x \<noteq> Some [])"

definition branch_options :: "string option \<Rightarrow> bool \<Rightarrow> bool \<Rightarrow> string list" where
  "branch_options checkpointId usingResumeCheckpoint hasUndo =
     (if truthy checkpointId then
        (if usingResumeCheckpoint then
           [''Restore to session start (files + conversation)'',
            ''Conversation only (keep current files)'',
            ''Restore to session start (files only, keep conversation)'']
         else
           [''Restore all (files + conversation)'',
            ''Conversation only (keep current files)'',
            ''Code only (restore files, keep conversation)''])
      else [''Conversation only (keep current files)''])
     @ (if hasUndo then [''Undo last file rewind''] else [])"

text \<open>
  The handler after \<open>ctx.ui.select\<close> has returned: what it does with the choice. The
  world \<open>w\<close> is the one in which the menu has been shown.
\<close>

definition branch_choice ::
  "env \<Rightarrow> string option \<Rightarrow> bool \<Rightarrow> (string \<times> commit) option \<Rightarrow> string option \<Rightarrow>
   ext \<Rightarrow> world \<Rightarrow> hook_result \<times> ext \<times> world" where
  "branch_choice e checkpointId usingResumeCheckpoint beforeRestoreRef choice s w =
     (if \<not> truthy choice then (Cancel, s, notify ''Rewind cancelled'' ''info'' w)
      else if startsWith (the choice) ''Conversation only'' then (NoResult, s, w)
      else if choice = Some ''Undo last file rewind'' then
        (case beforeRestoreRef of
           None \<Rightarrow> (TypeError, s, w)
         | Some (refName, commitSha) \<Rightarrow>
             (case restoreWithBackup e (BySha commitSha) s w of (success, s4, w4) \<Rightarrow>
                (Cancel, s4,
                 if success then notify ''Files restored to before last rewind'' ''info'' w4
                 else w4)))
      else
        (case restoreWithBackup e
                (ByRef (REF_PREFIX @ (case checkpointId of None \<Rightarrow> ''undefined'' | Some c \<Rightarrow> c)))
                s w of
           (success, s4, w4) \<Rightarrow>
             if \<not> success then (Cancel, s4, w4)
             else
               (if choice = Some ''Code only (restore files, keep conversation)'' \<or>
                   choice = Some ''Restore to session start (files only, keep conversation)''
                then SkipConversationRestore else NoResult,
                s4,
                notify (if usingResumeCheckpoint then ''Files restored to session start''
                        else ''Files restored from checkpoint'') ''info'' w4)))"

text \<open>The handler up to the menu: the guards, the target, the undo lookup, the options.\<close>

definition session_before_branch ::
  "ctx \<Rightarrow> env \<Rightarrow> string \<Rightarrow> ext \<Rightarrow> world \<Rightarrow> hook_result \<times> ext \<times> world" where
  "session_before_branch cx e entryId s w =
     (if \<not> hasUI cx then (NoResult, s, w)
      else case exec e RevParseInside w of
        (None, w1) \<Rightarrow> (NoResult, s, w1)
      | (Some out, w1) \<Rightarrow>
          if stdout_text out \<noteq> ''true'' then (NoResult, s, w1)
          else
            (let sanitizedEntryId = sanitizeForRef entryId;
                 found = map_of (checkpoints s) sanitizedEntryId;
                 usingResumeCheckpoint = (\<not> truthy found \<and> truthy (resumeCheckpoint s));
                 checkpointId = (if usingResumeCheckpoint then resumeCheckpoint s else found)
             in case findBeforeRestoreRef e w1 of (beforeRestoreRef, w2) \<Rightarrow>
               (let hasUndo = (beforeRestoreRef \<noteq> None);
                    options = branch_options checkpointId usingResumeCheckpoint hasUndo
                in branch_choice e checkpointId usingResumeCheckpoint beforeRestoreRef
                     (select cx options) s (w2\<lparr>shown := shown w2 @ [Select options]\<rparr>))))"

subsection \<open>A restore followed by an undo\<close>

text \<open>
  The undo path of the handlers (lines 381 and 419 to 423, lines 476 and 509 to 513):
  the lookup of the newest backup, then \<open>restoreWithBackup\<close> on the commit it names;
  here right after a restore to the target \<open>t\<close>. The result tells whether the restore
  and the undo returned true, and gives the repository at the end. Without a backup
  the undo is not offered.
\<close>

definition restore_then_undo ::
  "env \<Rightarrow> env \<Rightarrow> target \<Rightarrow> ext \<Rightarrow> world \<Rightarrow> bool \<times> bool \<times> world" where
  "restore_then_undo e1 e2 t s w =
     (case restoreWithBackup e1 t s w of (ok1, s1, w1) \<Rightarrow>
      case findBeforeRestoreRef e2 w1 of
        (None, w2) \<Rightarrow> (ok1, False, w2)
      | (Some (refName, commitSha), w2) \<Rightarrow>
          (case restoreWithBackup e2 (BySha commitSha) s1 w2 of (ok2, s3, w3) \<Rightarrow>
             (ok1, ok2, w3)))"

section \<open>Example inputs\<close>

text \<open>
  A run in which no command fails, a repository with one file and no checkpoint refs, a
  session that is initialised, and a context whose branch ends with the user message
  \<open>e1\<close>.
\<close>

definition calm :: "nat \<Rightarrow> env" where
  "calm t = \<lparr>now = t, broken = (\<lambda>c. False), report = (\<lambda>c. Rejects)\<rparr>"

definition demo_world :: world where
  "demo_world =
     \<lparr>refs = [], worktree = [''a.txt'' \<mapsto> ''1''], inside_work_tree = True,
      toplevel = ''/repo'', trace = [], shown = []\<rparr>"

definition demo_ext :: ext where
  "demo_ext =
     \<lparr>checkpoints = [], resumeCheckpoint = None, repoRoot = Some ''/repo'',
      isGitRepo = True, pendingCheckpoint = None\<rparr>"

definition demo_ctx :: "(string list \<Rightarrow> string option) \<Rightarrow> ctx" where
  "demo_ctx answer =
     \<lparr>hasUI = True,
      branch = Some [\<lparr>entry_id = ''e1'', entry_type = ''message'', message_role = Some ''user''\<rparr>],
      select = answer\<rparr>"

text \<open>
  A repository whose working tree holds \<open>a.txt\<close> with content 1 and whose store holds
  two turn checkpoints: the snapshot of entry \<open>e1\<close> has \<open>a.txt\<close> with content 0, the
  snapshot of entry \<open>e2\<close> has in addition a file \<open>b.txt\<close>.
\<close>

definition saved_world :: world where
  "saved_world =
     demo_world\<lparr>refs :=
       [(''refs/pi-checkpoints/checkpoint-1700000000000-e1'',
         \<lparr>ctree = [''a.txt'' \<mapsto> ''0''], cdate = 1700000000\<rparr>),
        (''refs/pi-checkpoints/checkpoint-1700000001000-e2'',
         \<lparr>ctree = [''a.txt'' \<mapsto> ''0'', ''b.txt'' \<mapsto> ''5''], cdate = 1700000001\<rparr>)]\<rparr>"

text \<open>The same repository with one before-restore backup, and with two of them.\<close>

definition backed_world :: world where
  "backed_world =
     saved_world\<lparr>refs := refs saved_world @
       [(''refs/pi-checkpoints/before-restore-1700000002000'',
         \<lparr>ctree = [''a.txt'' \<mapsto> ''2''], cdate = 1700000002\<rparr>)]\<rparr>"

definition cluttered_world :: world where
  "cluttered_world =
     saved_world\<lparr>refs := refs saved_world @
       [(''refs/pi-checkpoints/before-restore-1700000002000'',
         \<lparr>ctree = [''a.txt'' \<mapsto> ''2''], cdate = 1700000002\<rparr>),
        (''refs/pi-checkpoints/before-restore-1700000003000'',
         \<lparr>ctree = [''a.txt'' \<mapsto> ''3''], cdate = 1700000003\<rparr>)]\<rparr>"

text \<open>The repository \<open>saved_world\<close> with an empty working tree.\<close>

definition bare_world :: world where
  "bare_world = saved_world\<lparr>worktree := Map.empty\<rparr>"

text \<open>
  A run in which every checkout fails while \<open>ExecFn\<close> resolves (with a non-zero code),
  and a run in which the capture of the working tree fails.
\<close>

definition unheard :: "nat \<Rightarrow> env" where
  "unheard t =
     \<lparr>now = t, broken = (\<lambda>c. case c of Checkout x \<Rightarrow> True | _ \<Rightarrow> False),
      report = (\<lambda>c. Resolves)\<rparr>"

definition no_capture :: "nat \<Rightarrow> env" where
  "no_capture t =
     \<lparr>now = t, broken = (\<lambda>c. case c of CaptureTree \<Rightarrow> True | _ \<Rightarrow> False),
      report = (\<lambda>c. Rejects)\<rparr>"

text \<open>A run in which the write of a ref fails and the promise of \<open>ExecFn\<close> rejects.\<close>

definition no_write :: "nat \<Rightarrow> env" where
  "no_write t =
     \<lparr>now = t, broken = (\<lambda>c. case c of UpdateRef n k \<Rightarrow> True | _ \<Rightarrow> False),
      report = (\<lambda>c. Rejects)\<rparr>"

text \<open>
  A store of \<open>n\<close> turn checkpoints taken one second apart, oldest first. With the tag
  \<open>checkpoint-\<close> the names are those index.ts writes; with the tag \<open>checkpoint-s2-\<close> they
  are the names of session \<open>s2\<close> in the layout
  \<open>checkpoint-{sessionId}-{timestampMs}-{sanitizedEntryId}\<close> of the specification.
\<close>

definition timeline :: "string \<Rightarrow> nat \<Rightarrow> (string \<times> commit) list" where
  "timeline tag n =
     map (\<lambda>i. (REF_PREFIX @ tag @ show_nat (1700000000000 + 1000 * i) @ ''-e'' @ show_nat i,
               \<lparr>ctree = Map.empty, cdate = 1700000000 + i\<rparr>)) [0..<n]"

section \<open>What the commands leave untouched\<close>

lemma exec_frame:
  "exec e c w = (r, w') \<Longrightarrow>
     shown w' = shown w \<and> trace w' = trace w @ [c] \<and>
     inside_work_tree w' = inside_work_tree w \<and> toplevel w' = toplevel w"
  by (auto simp: exec_def git_def Let_def split: cmd.splits option.splits if_splits report.splits)

lemma findBeforeRestoreRef_frame:
  "findBeforeRestoreRef e w = (b, w') \<Longrightarrow>
     shown w' = shown w \<and> trace w' = trace w @ [ForEachRefBackup] \<and>
     refs w' = refs w \<and> worktree w' = worktree w \<and>
     inside_work_tree w' = inside_work_tree w \<and> toplevel w' = toplevel w"
  by (auto simp: findBeforeRestoreRef_def exec_def git_def Let_def
      split: option.splits if_splits report.splits prod.splits)

lemma captureWorktree_frame:
  "captureWorktree e s w = (k, s', w') \<Longrightarrow> shown w' = shown w \<and> refs w' = refs w \<and> worktree w' = worktree w"
  by (auto simp: captureWorktree_def getRepoRoot_def exec_def execAsync_def git_def Let_def
      split: option.splits if_splits report.splits prod.splits stdout.splits)

lemma restoreWithBackup_shown:
  "restoreWithBackup e t s w = (ok, s', w') \<Longrightarrow> set (shown w) \<subseteq> set (shown w')"
  unfolding restoreWithBackup_def
  by (auto simp: notify_def Let_def split: option.splits prod.splits
      dest!: findBeforeRestoreRef_frame captureWorktree_frame exec_frame)

lemma exec_RevParseInside:
  "inside_work_tree w \<Longrightarrow> \<not> broken e RevParseInside \<Longrightarrow>
   exec e RevParseInside w = (Some (Text ''true''), w\<lparr>trace := trace w @ [RevParseInside]\<rparr>)"
  by (simp add: exec_def git_def)

lemma branch_choice_cancel:
  "\<not> truthy ch \<Longrightarrow>
   branch_choice e cid resume b ch s w = (Cancel, s, notify ''Rewind cancelled'' ''info'' w)"
  by (simp add: branch_choice_def)

lemma branch_choice_conversation:
  "truthy ch \<Longrightarrow> startsWith (the ch) ''Conversation only'' \<Longrightarrow>
   branch_choice e cid resume b ch s w = (NoResult, s, w)"
  by (simp add: branch_choice_def)

lemma branch_choice_undo:
  "truthy ch \<Longrightarrow> \<not> startsWith (the ch) ''Conversation only'' \<Longrightarrow>
   ch = Some ''Undo last file rewind'' \<Longrightarrow>
   branch_choice e cid resume b ch s w =
     (case b of
        None \<Rightarrow> (TypeError, s, w)
      | Some (refName, commitSha) \<Rightarrow>
          (case restoreWithBackup e (BySha commitSha) s w of (success, s4, w4) \<Rightarrow>
             (Cancel, s4,
              if success then notify ''Files restored to before last rewind'' ''info'' w4
              else w4)))"
  by (simp add: branch_choice_def)

lemma branch_choice_restore:
  "truthy ch \<Longrightarrow> \<not> startsWith (the ch) ''Conversation only'' \<Longrightarrow>
   ch \<noteq> Some ''Undo last file rewind'' \<Longrightarrow>
   branch_choice e cid resume b ch s w =
     (case restoreWithBackup e
             (ByRef (REF_PREFIX @ (case cid of None \<Rightarrow> ''undefined'' | Some c \<Rightarrow> c))) s w of
        (success, s4, w4) \<Rightarrow>
          if \<not> success then (Cancel, s4, w4)
          else
            (if ch = Some ''Code only (restore files, keep conversation)'' \<or>
                ch = Some ''Restore to session start (files only, keep conversation)''
             then SkipConversationRestore else NoResult,
             s4,
             notify (if resume then ''Files restored to session start''
                     else ''Files restored from checkpoint'') ''info'' w4))"
  by (simp add: branch_choice_def)

lemma branch_choice_shown:
  assumes "branch_choice e cid resume b ch s w = (r, s', w')"
  shows "set (shown w) \<subseteq> set (shown w')"
proof -
  have R: "set (shown w) \<subseteq> set (shown w4)" if "restoreWithBackup e t s w = (ok, s4, w4)" for t ok s4 w4
    using restoreWithBackup_shown [OF that] .
  have N: "set (shown w) \<subseteq> set (shown (notify m l w4))" if "set (shown w) \<subseteq> set (shown w4)" for m l w4
    using that by (auto simp: notify_def)
  consider (cancel) "\<not> truthy ch"
    | (conv) "truthy ch" "startsWith (the ch) ''Conversation only''"
    | (undo) "truthy ch" "\<not> startsWith (the ch) ''Conversation only''"
        "ch = Some ''Undo last file rewind''"
    | (restore) "truthy ch" "\<not> startsWith (the ch) ''Conversation only''"
        "ch \<noteq> Some ''Undo last file rewind''"
    by blast
  then show ?thesis
  proof cases
    case cancel
    then show ?thesis using assms N [of w] by (auto simp: branch_choice_cancel)
  next
    case conv
    then show ?thesis using assms by (simp add: branch_choice_conversation)
  next
    case undo
    show ?thesis
    proof (cases b)
      case None
      then show ?thesis using assms by (simp add: branch_choice_undo [OF undo])
    next
      case (Some p)
      obtain n k where p: "p = (n, k)" by (cases p)
      obtain ok s4 w4 where rb: "restoreWithBackup e (BySha k) s w = (ok, s4, w4)"
        by (cases "restoreWithBackup e (BySha k) s w") auto
      have "w' = (if ok then notify ''Files restored to before last rewind'' ''info'' w4 else w4)"
        using assms by (simp add: branch_choice_undo [OF undo] Some p rb)
      then show ?thesis using R [OF rb] N by (cases ok) simp_all
    qed
  next
    case restore
    let ?t = "ByRef (REF_PREFIX @ (case cid of None \<Rightarrow> ''undefined'' | Some c \<Rightarrow> c))"
    obtain ok s4 w4 where rb: "restoreWithBackup e ?t s w = (ok, s4, w4)"
      by (cases "restoreWithBackup e ?t s w") auto
    have "w' = (if \<not> ok then w4
                else notify (if resume then ''Files restored to session start''
                             else ''Files restored from checkpoint'') ''info'' w4)"
      using assms by (simp add: branch_choice_restore [OF restore] rb split: if_splits)
    then show ?thesis using R [OF rb] N by (cases ok) simp_all
  qed
qed

lemma session_before_branch_menu:
  assumes "hasUI cx" "inside_work_tree w" "\<not> broken e RevParseInside"
    and "findBeforeRestoreRef e (w\<lparr>trace := trace w @ [RevParseInside]\<rparr>) = (b, w2)"
    and "found = map_of (checkpoints s) (sanitizeForRef x)"
    and "resume = (\<not> truthy found \<and> truthy (resumeCheckpoint s))"
    and "cid = (if resume then resumeCheckpoint s else found)"
    and "opts = branch_options cid resume (b \<noteq> None)"
  shows "session_before_branch cx e x s w =
           branch_choice e cid resume b (select cx opts) s (w2\<lparr>shown := shown w2 @ [Select opts]\<rparr>)"
  unfolding session_before_branch_def Let_def
  using assms(1-4)
  by (simp add: exec_RevParseInside stdout_text_def assms(5-8) del: not_None_eq)

lemma branch_choice_menu:
  "Select opts \<in> set (shown (snd (snd (branch_choice e cid resume b ch s
      (w\<lparr>shown := shown w @ [Select opts]\<rparr>)))))"
  using branch_choice_shown [of e cid resume b ch s "w\<lparr>shown := shown w @ [Select opts]\<rparr>"]
  by (cases "branch_choice e cid resume b ch s (w\<lparr>shown := shown w @ [Select opts]\<rparr>)") auto

lemma restore_choice_eq:
  assumes "ch = Some l"
    and "l = ''Restore all (files + conversation)'' \<or> l = ''Code only (restore files, keep conversation)'' \<or>
         l = ''Restore to session start (files + conversation)'' \<or>
         l = ''Restore to session start (files only, keep conversation)''"
  shows "branch_choice e (Some c) resume b ch s w =
     (case restoreWithBackup e (ByRef (REF_PREFIX @ c)) s w of
        (ok, s4, w4) \<Rightarrow>
          if \<not> ok then (Cancel, s4, w4)
          else (if l = ''Code only (restore files, keep conversation)'' \<or>
                   l = ''Restore to session start (files only, keep conversation)''
                then SkipConversationRestore else NoResult,
                s4,
                notify (if resume then ''Files restored to session start''
                        else ''Files restored from checkpoint'') ''info'' w4))"
  using assms(2) unfolding assms(1) branch_choice_def
  by (elim disjE) (simp_all add: truthy_def startsWith_def)

lemma demo_find:
  "findBeforeRestoreRef (calm t) (demo_world\<lparr>trace := trace demo_world @ [RevParseInside]\<rparr>) =
     (None, demo_world\<lparr>trace := [RevParseInside, ForEachRefBackup]\<rparr>)"
  by (simp add: findBeforeRestoreRef_def exec_def git_def calm_def demo_world_def
      latest_backup_def stdout_latest_def)

section \<open>Strings, listings and the prune loop\<close>

subsection \<open>Strings\<close>

lemma startsWith_append [simp]: "startsWith (p @ s) p"
  by (simp add: startsWith_def)

lemma startsWith_decompose: "startsWith s p \<Longrightarrow> s = p @ drop (length p) s"
  by (metis append_take_drop_id startsWith_def)

lemma replace_first_prefix:
  "startsWith s p \<Longrightarrow> replace_first s p [] = drop (length p) s"
  by (cases s) (auto simp: startsWith_def)

lemma replace_first_REF_PREFIX [simp]: "replace_first (REF_PREFIX @ c) REF_PREFIX [] = c"
  by (simp add: replace_first_prefix)

lemma includes_str_chars: "includes_str s p \<Longrightarrow> set p \<subseteq> set s"
proof (induction s)
  case Nil
  then show ?case by simp
next
  case (Cons c s)
  show ?case
  proof (cases "startsWith (c # s) p")
    case True
    then have "set p = set (take (length p) (c # s))" by (simp add: startsWith_def)
    then show ?thesis using set_take_subset by metis
  next
    case False
    with Cons show ?thesis by auto
  qed
qed

lemma digit_char_is_digit: "d < 10 \<Longrightarrow> is_digit (digit_char d)"
proof -
  assume "d < 10"
  then have "d \<in> {0, 1, 2, 3, 4, 5, 6, 7, 8, 9}" by auto
  then show ?thesis by (auto simp: digit_char_def is_digit_def)
qed

lemma show_nat_digits: "c \<in> set (show_nat n) \<Longrightarrow> is_digit c"
proof (induction n arbitrary: c rule: show_nat.induct)
  case (1 n)
  show ?case
  proof (cases "n < 10")
    case True
    with "1.prems" show ?thesis by (simp add: show_nat.simps [of n] digit_char_is_digit)
  next
    case False
    with "1.prems" "1.IH" show ?thesis
      by (auto simp: show_nat.simps [of n] digit_char_is_digit)
  qed
qed

lemma show_nat_nonempty [simp]: "show_nat n \<noteq> []"
  by (subst show_nat.simps) simp

subsection \<open>Listing\<close>

lemma for_each_ref_filter:
  "for_each_ref (filter (\<lambda>r. P (fst r)) rs) = filter P (for_each_ref rs)"
proof -
  have c: "(\<lambda>r. P (fst r)) = P \<circ> fst" by (simp add: fun_eq_iff)
  show ?thesis
    unfolding for_each_ref_def filter_map c [symmetric] filter_sort
    by (simp add: conj_commute)
qed

lemma distinct_for_each_ref:
  assumes "distinct (map fst rs)"
  shows "distinct (for_each_ref rs)"
proof -
  let ?xs = "filter (\<lambda>r. startsWith (fst r) REF_PREFIX) rs"
  have "distinct (map fst ?xs)" using assms by (rule distinct_map_filter)
  then have "distinct ?xs" "inj_on fst (set ?xs)" by (simp_all add: distinct_map)
  then show ?thesis by (simp add: for_each_ref_def distinct_map)
qed

lemma for_each_ref_prefix: "n \<in> set (for_each_ref rs) \<Longrightarrow> startsWith n REF_PREFIX"
  by (auto simp: for_each_ref_def)

lemma for_each_ref_names: "set (for_each_ref rs) \<subseteq> fst ` set rs"
  by (auto simp: for_each_ref_def)

lemma filter_out_take:
  assumes "distinct xs"
  shows "filter (\<lambda>x. x \<notin> set (take k xs)) xs = drop k xs"
proof -
  have d: "set (take k xs) \<inter> set (drop k xs) = {}"
    using assms by (metis append_take_drop_id distinct_append)
  let ?P = "\<lambda>x. x \<notin> set (take k xs)"
  have "filter ?P xs = filter ?P (take k xs) @ filter ?P (drop k xs)"
    by (metis append_take_drop_id filter_append)
  moreover have "filter ?P (take k xs) = []" by (simp add: filter_empty_conv)
  moreover have "filter ?P (drop k xs) = drop k xs" using d by (auto simp: filter_id_conv)
  ultimately show ?thesis by simp
qed

subsection \<open>Commands that succeed\<close>

lemma exec_ForEachRef:
  "\<not> broken e ForEachRef \<Longrightarrow>
   exec e ForEachRef w = (Some (Names (for_each_ref (refs w))), w\<lparr>trace := trace w @ [ForEachRef]\<rparr>)"
  by (simp add: exec_def git_def)

lemma exec_DeleteRef:
  "\<not> broken e (DeleteRef n) \<Longrightarrow>
   exec e (DeleteRef n) w =
     (Some Quiet, w\<lparr>trace := trace w @ [DeleteRef n], refs := AList.delete n (refs w)\<rparr>)"
  by (simp add: exec_def git_def)

lemma prune_loop_refs:
  assumes "\<forall>n. \<not> broken e (DeleteRef n)"
  shows "refs (snd (prune_loop e D s w)) = filter (\<lambda>r. fst r \<notin> set D) (refs w)"
  using assms
proof (induction D arbitrary: s w)
  case Nil
  then show ?case by simp
next
  case (Cons ref D)
  have f: "filter (\<lambda>r. fst r \<notin> set D) (AList.delete ref (refs w)) =
           filter (\<lambda>r. fst r \<notin> set (ref # D)) (refs w)"
    by (auto simp: AList.delete_eq intro: filter_cong)
  show ?case
    using Cons.prems
    by (simp add: exec_DeleteRef Cons.IH f [symmetric] del: set_simps)
qed

subsection \<open>The map during a prune\<close>

lemma exec_DeleteRef_refs:
  "exec e (DeleteRef n) w = (r, w1) \<Longrightarrow>
     refs w1 = refs w \<or> refs w1 = AList.delete n (refs w)"
  by (auto simp: exec_def git_def Let_def split: if_splits report.splits)

lemma names_after_delete:
  assumes "refs w1 = refs w \<or> refs w1 = AList.delete n (refs w)"
    and "m \<in> fst ` set (refs w)" and "m \<noteq> n"
  shows "m \<in> fst ` set (refs w1)"
  using assms by (auto simp: AList.delete_eq image_iff)

lemma unmap_cases:
  "map_of (checkpoints (unmap (REF_PREFIX @ c) s)) E = map_of (checkpoints s) E \<or>
   (map_of (checkpoints (unmap (REF_PREFIX @ c) s)) E = None \<and> map_of (checkpoints s) E = Some c \<and>
    map_option snd (match_checkpoint c) = Some E)"
  by (auto simp: unmap_def Let_def AList.delete_conv split: option.splits)

lemma unmap_exact:
  assumes "map_of (checkpoints s) E = Some c" and "map_option snd (match_checkpoint c) = Some E"
  shows "map_of (checkpoints (unmap (REF_PREFIX @ c) s)) E = None"
  using assms by (auto simp: unmap_def Let_def AList.delete_conv split: option.splits)

lemma prune_loop_map:
  assumes "prune_loop e D s w = (s', w')" and "\<forall>r\<in>set D. startsWith r REF_PREFIX"
  shows "map_of (checkpoints s') E = map_of (checkpoints s) E \<or>
         (map_of (checkpoints s') E = None \<and>
          (\<exists>v. map_of (checkpoints s) E = Some v \<and> REF_PREFIX @ v \<in> set D))"
  using assms
proof (induction D arbitrary: s w)
  case Nil
  then show ?case by simp
next
  case (Cons ref D)
  obtain c where ref: "ref = REF_PREFIX @ c"
    using Cons.prems(2) startsWith_decompose [of ref REF_PREFIX] by auto
  obtain r w1 where ex: "exec e (DeleteRef ref) w = (r, w1)" by (cases "exec e (DeleteRef ref) w")
  show ?case
  proof (cases r)
    case None
    then show ?thesis using Cons.prems(1) ex by simp
  next
    case (Some out)
    then have run: "prune_loop e D (unmap ref s) w1 = (s', w')"
      using Cons.prems(1) ex by simp
    have ih: "map_of (checkpoints s') E = map_of (checkpoints (unmap ref s)) E \<or>
         (map_of (checkpoints s') E = None \<and>
          (\<exists>v. map_of (checkpoints (unmap ref s)) E = Some v \<and> REF_PREFIX @ v \<in> set D))"
      using Cons.IH [OF run] Cons.prems(2) by simp
    from unmap_cases [of c s E] show ?thesis
    proof
      assume "map_of (checkpoints (unmap (REF_PREFIX @ c) s)) E = map_of (checkpoints s) E"
      then show ?thesis using ih ref by auto
    next
      assume "map_of (checkpoints (unmap (REF_PREFIX @ c) s)) E = None \<and>
              map_of (checkpoints s) E = Some c \<and> map_option snd (match_checkpoint c) = Some E"
      then show ?thesis using ih ref by auto
    qed
  qed
qed

lemma unmap_sub:
  "map_of (checkpoints (unmap ref s)) E = Some v \<Longrightarrow> map_of (checkpoints s) E = Some v"
  by (auto simp: unmap_def Let_def AList.delete_conv split: option.splits if_splits)

lemma prune_loop_sound:
  assumes "prune_loop e D s w = (s', w')" and "\<forall>r\<in>set D. startsWith r REF_PREFIX"
    and "\<forall>E v. map_of (checkpoints s) E = Some v \<longrightarrow>
           map_option snd (match_checkpoint v) = Some E \<and> REF_PREFIX @ v \<in> fst ` set (refs w)"
  shows "\<forall>E v. map_of (checkpoints s') E = Some v \<longrightarrow>
           map_option snd (match_checkpoint v) = Some E \<and> REF_PREFIX @ v \<in> fst ` set (refs w')"
  using assms
proof (induction D arbitrary: s w)
  case Nil
  then show ?case by simp
next
  case (Cons ref D)
  obtain c where ref: "ref = REF_PREFIX @ c"
    using Cons.prems(2) startsWith_decompose [of ref REF_PREFIX] by auto
  obtain r w1 where ex: "exec e (DeleteRef ref) w = (r, w1)" by (cases "exec e (DeleteRef ref) w")
  note rf = exec_DeleteRef_refs [OF ex]
  show ?case
  proof (cases r)
    case None
    then have "s' = s" "w' = w1" using Cons.prems(1) ex by simp_all
    moreover have "refs w1 = refs w"
      using ex None by (auto simp: exec_def git_def Let_def split: if_splits report.splits)
    ultimately show ?thesis using Cons.prems(3) by simp
  next
    case (Some out)
    then have run: "prune_loop e D (unmap ref s) w1 = (s', w')"
      using Cons.prems(1) ex by simp
    have step: "\<forall>E v. map_of (checkpoints (unmap ref s)) E = Some v \<longrightarrow>
           map_option snd (match_checkpoint v) = Some E \<and> REF_PREFIX @ v \<in> fst ` set (refs w1)"
    proof (intro allI impI)
      fix E v
      assume a: "map_of (checkpoints (unmap ref s)) E = Some v"
      then have b: "map_of (checkpoints s) E = Some v" by (rule unmap_sub)
      then have d: "map_option snd (match_checkpoint v) = Some E"
        and m: "REF_PREFIX @ v \<in> fst ` set (refs w)"
        using Cons.prems(3) by blast+
      have "v \<noteq> c"
      proof
        assume "v = c"
        then have "map_of (checkpoints (unmap ref s)) E = None"
          using unmap_exact [of s E c] b d ref by simp
        then show False using a by simp
      qed
      then have "REF_PREFIX @ v \<noteq> ref" by (simp add: ref)
      then have "REF_PREFIX @ v \<in> fst ` set (refs w1)"
        using names_after_delete [OF rf m] by simp
      then show "map_option snd (match_checkpoint v) = Some E \<and>
                 REF_PREFIX @ v \<in> fst ` set (refs w1)" using d by simp
    qed
    show ?thesis using Cons.IH [OF run _ step] Cons.prems(2) by simp
  qed
qed

lemma pruneCheckpoints_cases:
  assumes "pruneCheckpoints e s w = (s', w')"
    and "turn_refs = filter is_checkpoint_ref (for_each_ref (refs w))"
  shows "(s' = s \<and> refs w' = refs w) \<or>
         (\<exists>w1. refs w1 = refs w \<and>
            prune_loop e (take (length turn_refs - 100) turn_refs) s w1 = (s', w'))"
proof -
  obtain r w1 where ex: "exec e ForEachRef w = (r, w1)" by (cases "exec e ForEachRef w")
  have same: "refs w1 = refs w"
    using ex by (auto simp: exec_def git_def Let_def split: if_splits report.splits)
  have out: "r = None \<or> r = Some Quiet \<or> r = Some (Names (for_each_ref (refs w)))"
    using ex by (auto simp: exec_def git_def Let_def split: if_splits report.splits)
  then show ?thesis
    using assms ex same
    by (auto simp: pruneCheckpoints_def stdout_names_def MAX_CHECKPOINTS_def Let_def
        split: if_splits)
qed

subsection \<open>Numbers as text\<close>

lemma digit_char_inj: "a < 10 \<Longrightarrow> b < 10 \<Longrightarrow> digit_char a = digit_char b \<Longrightarrow> a = b"
proof -
  assume a: "a < 10" and b: "b < 10" and eq: "digit_char a = digit_char b"
  have d: "distinct ''0123456789''" by simp
  show ?thesis
    using nth_eq_iff_index_eq [OF d, of a b] a b eq by (simp add: digit_char_def)
qed

lemma show_nat_inj: "show_nat a = show_nat b \<Longrightarrow> a = b"
proof (induction a arbitrary: b rule: show_nat.induct)
  case (1 a)
  show ?case
  proof (cases "a < 10")
    case a: True
    show ?thesis
    proof (cases "b < 10")
      case True
      with a "1.prems" show ?thesis
        by (simp add: show_nat.simps [of a] show_nat.simps [of b] digit_char_inj)
    next
      case False
      with a "1.prems" show_nat_nonempty [of "b div 10"] show ?thesis
        by (auto simp: show_nat.simps [of a] show_nat.simps [of b])
    qed
  next
    case a: False
    show ?thesis
    proof (cases "b < 10")
      case True
      with a "1.prems" show_nat_nonempty [of "a div 10"] show ?thesis
        by (auto simp: show_nat.simps [of a] show_nat.simps [of b])
    next
      case False
      with a "1.prems" have "show_nat (a div 10) = show_nat (b div 10)"
        and "digit_char (a mod 10) = digit_char (b mod 10)"
        by (simp_all add: show_nat.simps [of a] show_nat.simps [of b])
      then have "a div 10 = b div 10" and "a mod 10 = b mod 10"
        using "1.IH" [OF a] digit_char_inj [of "a mod 10" "b mod 10"] by simp_all
      then show ?thesis by (metis div_mult_mod_eq)
    qed
  qed
qed

lemma takeWhile_show_nat [simp]:
  "takeWhile is_digit (show_nat n @ CHR ''-'' # rest) = show_nat n"
proof -
  have "takeWhile is_digit (show_nat n @ CHR ''-'' # rest) =
        show_nat n @ takeWhile is_digit (CHR ''-'' # rest)"
    by (rule takeWhile_append2) (rule show_nat_digits)
  then show ?thesis by (simp add: is_digit_def)
qed

lemma dropWhile_show_nat [simp]:
  "dropWhile is_digit (show_nat n @ CHR ''-'' # rest) = CHR ''-'' # rest"
proof -
  have "dropWhile is_digit (show_nat n @ CHR ''-'' # rest) =
        dropWhile is_digit (CHR ''-'' # rest)"
    by (rule dropWhile_append2) (rule show_nat_digits)
  then show ?thesis by (simp add: is_digit_def)
qed

lemma match_checkpoint_encode:
  assumes "eid \<noteq> []" and "\<not> list_ex is_line_terminator eid"
  shows "match_checkpoint (''checkpoint-'' @ show_nat ts @ ''-'' @ eid) = Some (show_nat ts, eid)"
  using assms by (simp add: match_checkpoint_def startsWith_def)

subsection \<open>Listings that are already in order\<close>

lemma sort_twice_id:
  assumes "sorted (map f xs)" and "distinct (map f xs)"
  shows "sort_key f (sort_key g xs) = xs"
proof -
  let ?zs = "sort_key f (sort_key g xs)"
  have dx: "distinct xs" "inj_on f (set xs)" using assms(2) by (simp_all add: distinct_map)
  have "map f ?zs = map f xs"
    by (rule sorted_distinct_set_unique) (simp_all add: assms distinct_map dx)
  moreover have "inj_on f (set ?zs \<union> set xs)" using dx by simp
  ultimately show ?thesis by (rule map_inj_on)
qed

lemma for_each_ref_in_order:
  assumes "sorted (map (\<lambda>r. cdate (snd r)) rs)" and "distinct (map (\<lambda>r. cdate (snd r)) rs)"
    and "\<forall>r\<in>set rs. startsWith (fst r) REF_PREFIX"
  shows "for_each_ref rs = map fst rs"
proof -
  have "filter (\<lambda>r. startsWith (fst r) REF_PREFIX) rs = rs" using assms(3) by (simp add: filter_id_conv)
  then show ?thesis by (simp add: for_each_ref_def sort_twice_id [OF assms(1,2)])
qed

lemma timeline_dates: "map (\<lambda>r. cdate (snd r)) (timeline tag n) = map (\<lambda>i. 1700000000 + i) [0..<n]"
  by (simp add: timeline_def comp_def)

lemma for_each_ref_timeline: "for_each_ref (timeline tag n) = map fst (timeline tag n)"
proof (rule for_each_ref_in_order)
  show "sorted (map (\<lambda>r. cdate (snd r)) (timeline tag n))"
    unfolding timeline_dates by (simp add: sorted_map sorted_wrt_map sorted_wrt_iff_nth_less)
  show "distinct (map (\<lambda>r. cdate (snd r)) (timeline tag n))"
    unfolding timeline_dates by (simp add: distinct_map inj_on_def)
  show "\<forall>r\<in>set (timeline tag n). startsWith (fst r) REF_PREFIX"
    by (auto simp: timeline_def)
qed

lemma distinct_timeline: "distinct (map fst (timeline tag n))"
proof -
  have "inj (\<lambda>i. REF_PREFIX @ tag @ show_nat (1700000000000 + 1000 * i) @ ''-e'' @ show_nat i)"
  proof (rule injI)
    fix i j
    assume "REF_PREFIX @ tag @ show_nat (1700000000000 + 1000 * i) @ ''-e'' @ show_nat i =
            REF_PREFIX @ tag @ show_nat (1700000000000 + 1000 * j) @ ''-e'' @ show_nat j"
    then have "show_nat (1700000000000 + 1000 * i) @ CHR ''-'' # CHR ''e'' # show_nat i =
               show_nat (1700000000000 + 1000 * j) @ CHR ''-'' # CHR ''e'' # show_nat j"
      by (simp only: same_append_eq append_Cons append_Nil)
    then have "takeWhile is_digit (show_nat (1700000000000 + 1000 * i) @ CHR ''-'' # CHR ''e'' # show_nat i) =
               takeWhile is_digit (show_nat (1700000000000 + 1000 * j) @ CHR ''-'' # CHR ''e'' # show_nat j)"
      by (rule arg_cong)
    then have "show_nat (1700000000000 + 1000 * i) = show_nat (1700000000000 + 1000 * j)"
      by (simp only: takeWhile_show_nat)
    then have "1700000000000 + 1000 * i = 1700000000000 + 1000 * j" by (rule show_nat_inj)
    then show "i = j" by simp
  qed
  then have "inj_on (\<lambda>i. REF_PREFIX @ tag @ show_nat (1700000000000 + 1000 * i) @ ''-e'' @ show_nat i)
               (set [0..<n])"
    by (rule inj_on_subset) simp
  then have "distinct (map (\<lambda>i. REF_PREFIX @ tag @ show_nat (1700000000000 + 1000 * i) @ ''-e'' @ show_nat i)
               [0..<n])"
    by (simp only: distinct_map distinct_upt simp_thms)
  moreover have "map fst (timeline tag n) =
      map (\<lambda>i. REF_PREFIX @ tag @ show_nat (1700000000000 + 1000 * i) @ ''-e'' @ show_nat i) [0..<n]"
    unfolding timeline_def by (simp only: map_map comp_def fst_conv)
  ultimately show ?thesis by (simp only:)
qed

lemma no_b_no_backup: "CHR ''b'' \<notin> set s \<Longrightarrow> \<not> includes_str s BEFORE_RESTORE_PREFIX"
  using includes_str_chars [of s BEFORE_RESTORE_PREFIX] by (auto simp: BEFORE_RESTORE_PREFIX_def)

lemma no_u_no_resume: "CHR ''u'' \<notin> set s \<Longrightarrow> \<not> includes_str s ''checkpoint-resume-''"
  using includes_str_chars [of s "''checkpoint-resume-''"] by auto

lemma show_nat_no_letter: "CHR ''b'' \<notin> set (show_nat n) \<and> CHR ''u'' \<notin> set (show_nat n)"
  using show_nat_digits [of "CHR ''b''" n] show_nat_digits [of "CHR ''u''" n]
  by (auto simp: is_digit_def)

lemma timeline_turn_refs:
  assumes "CHR ''b'' \<notin> set tag" and "CHR ''u'' \<notin> set tag"
  shows "filter is_checkpoint_ref (map fst (timeline tag n)) = map fst (timeline tag n)"
proof -
  have nb: "CHR ''b'' \<notin> set (REF_PREFIX @ tag @ show_nat a @ ''-e'' @ show_nat i)" for a i
    using assms(1) show_nat_no_letter [of a] show_nat_no_letter [of i]
    by (simp add: REF_PREFIX_def)
  have nu: "CHR ''u'' \<notin> set (REF_PREFIX @ tag @ show_nat a @ ''-e'' @ show_nat i)" for a i
    using assms(2) show_nat_no_letter [of a] show_nat_no_letter [of i]
    by (simp add: REF_PREFIX_def)
  have "is_checkpoint_ref (REF_PREFIX @ tag @ show_nat a @ ''-e'' @ show_nat i)" for a i
    unfolding is_checkpoint_ref_def
    using no_b_no_backup [OF nb] no_u_no_resume [OF nu] by blast
  then have "\<forall>x\<in>set (map fst (timeline tag n)). is_checkpoint_ref x"
    unfolding timeline_def by (auto simp only: set_map image_iff fst_conv)
  then show ?thesis by (simp only: filter_id_conv)
qed

lemma timeline_Cons:
  "timeline tag (Suc n) =
     (REF_PREFIX @ tag @ ''1700000000000-e0'', \<lparr>ctree = Map.empty, cdate = 1700000000\<rparr>) #
     map (\<lambda>i. (REF_PREFIX @ tag @ show_nat (1700000000000 + 1000 * i) @ ''-e'' @ show_nat i,
               \<lparr>ctree = Map.empty, cdate = 1700000000 + i\<rparr>)) [1..<Suc n]"
proof -
  have "[0..<Suc n] = 0 # [1..<Suc n]" by (simp add: upt_conv_Cons)
  then show ?thesis
    unfolding timeline_def by (simp add: show_nat.simps digit_char_def)
qed

lemma length_timeline [simp]: "length (timeline tag n) = n"
  by (simp add: timeline_def)

text \<open>The turn refs of a store that holds a timeline and nothing else.\<close>

lemma turn_refs_timeline:
  assumes "CHR ''b'' \<notin> set tag" and "CHR ''u'' \<notin> set tag"
  shows "filter is_checkpoint_ref (for_each_ref (timeline tag n)) = map fst (timeline tag n)"
  by (simp only: for_each_ref_timeline timeline_turn_refs [OF assms])

text \<open>What a prune pass leaves in the store when its commands succeed.\<close>

lemma pruneCheckpoints_refs:
  assumes "\<not> broken e ForEachRef" and "\<forall>n. \<not> broken e (DeleteRef n)"
    and "L = filter is_checkpoint_ref (for_each_ref (refs w))"
  shows "refs (snd (pruneCheckpoints e s w)) =
         filter (\<lambda>r. fst r \<notin> set (take (length L - 100) L)) (refs w)"
proof -
  let ?D = "take (length L - 100) L"
  let ?w1 = "w\<lparr>trace := trace w @ [ForEachRef]\<rparr>"
  have run: "pruneCheckpoints e s w = (if 100 < length L then prune_loop e ?D s ?w1 else (s, ?w1))"
    by (simp add: pruneCheckpoints_def exec_ForEachRef [OF assms(1)] stdout_names_def
        MAX_CHECKPOINTS_def Let_def assms(3))
  show ?thesis
  proof (cases "100 < length L")
    case True
    then show ?thesis
      using prune_loop_refs [OF assms(2), of ?D s ?w1] by (simp add: run)
  next
    case False
    then show ?thesis by (simp add: run)
  qed
qed

lemma timeline_member:
  "i < n \<Longrightarrow>
   REF_PREFIX @ tag @ show_nat (1700000000000 + 1000 * i) @ ''-e'' @ show_nat i
     \<in> fst ` set (timeline tag n)"
  by (force simp: timeline_def image_iff)

lemma timeline_pruned_names:
  assumes "CHR ''b'' \<notin> set tag" and "CHR ''u'' \<notin> set tag"
  shows "fst ` set (refs (snd (pruneCheckpoints (calm t) s (demo_world\<lparr>refs := timeline tag 101\<rparr>)))) =
         fst ` set (timeline tag 101) - {REF_PREFIX @ tag @ ''1700000000000-e0''}"
proof -
  let ?w = "demo_world\<lparr>refs := timeline tag 101\<rparr>"
  have L: "map fst (timeline tag 101) = filter is_checkpoint_ref (for_each_ref (refs ?w))"
    using turn_refs_timeline [OF assms, of 101] by simp
  have D: "take (length (map fst (timeline tag 101)) - 100) (map fst (timeline tag 101)) =
           [REF_PREFIX @ tag @ ''1700000000000-e0'']"
    using timeline_Cons [of tag 100] by simp
  have "refs (snd (pruneCheckpoints (calm t) s ?w)) =
        filter (\<lambda>r. fst r \<notin> set [REF_PREFIX @ tag @ ''1700000000000-e0'']) (refs ?w)"
    using pruneCheckpoints_refs [OF _ _ L, of "calm t" s] unfolding D by (simp add: calm_def)
  then show ?thesis by auto
qed

subsection \<open>Rebuilding the map\<close>

lemma rebuild_step_decode:
  "rebuild_step ref m =
     (case decode_ref ref of None \<Rightarrow> m | Some (entryId, c) \<Rightarrow> AList.update entryId c m)"
  by (simp add: rebuild_step_def decode_ref_def Let_def split: option.split)

lemma derived_map_snoc:
  "derived_map (listing @ [ref]) entryId =
     (if map_option fst (decode_ref ref) = Some entryId then map_option snd (decode_ref ref)
      else derived_map listing entryId)"
  by (simp add: derived_map_def)

lemma map_of_rebuild:
  "map_of (fold rebuild_step listing m) entryId =
     (case derived_map listing entryId of None \<Rightarrow> map_of m entryId | Some c \<Rightarrow> Some c)"
proof (induction listing rule: rev_induct)
  case Nil
  then show ?case by (simp add: derived_map_def)
next
  case (snoc ref listing)
  show ?case
  proof (cases "decode_ref ref")
    case None
    then show ?thesis using snoc by (simp add: rebuild_step_decode derived_map_snoc)
  next
    case (Some p)
    obtain k c where p: "p = (k, c)" by (cases p)
    show ?thesis
      using snoc Some p
      by (simp add: rebuild_step_decode derived_map_snoc AList.update_conv')
  qed
qed

lemma fold_rebuild_skip:
  "fold rebuild_step (filter (\<lambda>r. decode_ref r \<noteq> None) listing) m = fold rebuild_step listing m"
proof (induction listing arbitrary: m)
  case Nil
  then show ?case by simp
next
  case (Cons a listing)
  show ?case
  proof (cases "decode_ref a")
    case None
    then have "rebuild_step a m = m" by (simp add: rebuild_step_decode)
    then show ?thesis using None Cons.IH [of m] by simp
  next
    case (Some p)
    then show ?thesis using Cons.IH [of "rebuild_step a m"] by simp
  qed
qed

lemma filter_update_other:
  "\<not> P n \<Longrightarrow> filter (\<lambda>r. P (fst r)) (AList.update n k rs) = filter (\<lambda>r. P (fst r)) rs"
  by (induction rs) auto

lemma decode_resume_ref: "decode_ref (REF_PREFIX @ ''checkpoint-resume-'' @ x) = None"
  by (simp add: decode_ref_def startsWith_def)

lemma rebuild_ignores_resume_ref:
  "fold rebuild_step (for_each_ref (AList.update (REF_PREFIX @ ''checkpoint-resume-'' @ x) k rs)) m =
   fold rebuild_step (for_each_ref rs) m"
proof -
  let ?P = "\<lambda>r. decode_ref r \<noteq> None"
  let ?n = "REF_PREFIX @ ''checkpoint-resume-'' @ x"
  have "filter ?P (for_each_ref (AList.update ?n k rs)) = filter ?P (for_each_ref rs)"
    using for_each_ref_filter [of ?P "AList.update ?n k rs"] for_each_ref_filter [of ?P rs]
      filter_update_other [of ?P ?n k rs] decode_resume_ref [of x]
    by simp
  then show ?thesis
    using fold_rebuild_skip [of "for_each_ref (AList.update ?n k rs)" m]
      fold_rebuild_skip [of "for_each_ref rs" m]
    by simp
qed

lemma captureWorktree_ext:
  "captureWorktree e s w = (k, s', w') \<Longrightarrow>
     checkpoints s' = checkpoints s \<and> inside_work_tree w' = inside_work_tree w"
  by (auto simp: captureWorktree_def getRepoRoot_def exec_def execAsync_def git_def Let_def
      split: option.splits if_splits report.splits prod.splits stdout.splits)

lemma exec_UpdateRef_refs:
  "exec e (UpdateRef n k) w = (r, w1) \<Longrightarrow>
     (refs w1 = refs w \<or> refs w1 = AList.update n k (refs w)) \<and>
     inside_work_tree w1 = inside_work_tree w"
  by (auto simp: exec_def git_def Let_def split: if_splits report.splits)

lemma createCheckpointFromWorktree_frame:
  assumes "createCheckpointFromWorktree e cid s w = (ok, s', w')"
  shows "checkpoints s' = checkpoints s \<and> inside_work_tree w' = inside_work_tree w \<and>
         (refs w' = refs w \<or> (\<exists>k. refs w' = AList.update (REF_PREFIX @ cid) k (refs w)))"
proof -
  obtain r s1 w1 where c: "captureWorktree e s w = (r, s1, w1)"
    by (cases "captureWorktree e s w") auto
  note f = captureWorktree_ext [OF c] captureWorktree_frame [OF c]
  show ?thesis
  proof (cases r)
    case None
    then show ?thesis using assms c f by (simp add: createCheckpointFromWorktree_def)
  next
    case (Some k)
    obtain r2 w2 where u: "exec e (UpdateRef (REF_PREFIX @ cid) k) w1 = (r2, w2)"
      by (cases "exec e (UpdateRef (REF_PREFIX @ cid) k) w1")
    have "s' = s1" "w' = w2"
      using assms c Some u by (auto simp: createCheckpointFromWorktree_def split: option.splits)
    then show ?thesis using exec_UpdateRef_refs [OF u] f by auto
  qed
qed

lemma initializeForSession_run:
  assumes "hasUI cx" and "inside_work_tree w" and "\<not> broken e RevParseInside"
    and "\<not> broken e ForEachRef" and "initializeForSession cx e s w = (s', w')"
  shows "checkpoints s' = fold rebuild_step (for_each_ref (refs w)) [] \<and>
         inside_work_tree w' = inside_work_tree w \<and>
         (refs w' = refs w \<or>
          (\<exists>k. refs w' = AList.update (REF_PREFIX @ ''checkpoint-resume-'' @ show_nat (now e)) k (refs w)))"
proof -
  let ?w1 = "w\<lparr>trace := trace w @ [RevParseInside]\<rparr>"
  let ?s1 = "(resetState s)\<lparr>isGitRepo := True\<rparr>"
  let ?w2 = "?w1\<lparr>trace := trace ?w1 @ [ForEachRef]\<rparr>"
  let ?s2 = "?s1\<lparr>checkpoints := fold rebuild_step (for_each_ref (refs w)) []\<rparr>"
  let ?cid = "''checkpoint-resume-'' @ show_nat (now e)"
  have rb: "rebuildCheckpointsMap e ?s1 ?w1 = (?s2, ?w2)"
    by (simp add: rebuildCheckpointsMap_def exec_ForEachRef [OF assms(4)] stdout_names_def
        resetState_def)
  obtain ok s3 w3 where cc: "createCheckpointFromWorktree e ?cid ?s2 ?w2 = (ok, s3, w3)"
    by (cases "createCheckpointFromWorktree e ?cid ?s2 ?w2") auto
  note f = createCheckpointFromWorktree_frame [OF cc]
  have "s' = (if ok then s3\<lparr>resumeCheckpoint := Some ?cid\<rparr> else s3)"
    and "w' = updateStatus cx (if ok then s3\<lparr>resumeCheckpoint := Some ?cid\<rparr> else s3) w3"
    using assms(1,2,3,5) rb cc
    by (auto simp add: initializeForSession_def exec_RevParseInside stdout_text_def Let_def)
  then show ?thesis using f by (auto simp: updateStatus_def)
qed

subsection \<open>The steps of a restore\<close>

lemma resolve_refs: "refs a = refs b \<Longrightarrow> resolve t a = resolve t b"
  by (simp add: resolve_def split: target.split)

lemma exec_cases:
  assumes "exec e c w = (r, w')"
  shows "trace w' = trace w @ [c] \<and> shown w' = shown w \<and>
         inside_work_tree w' = inside_work_tree w \<and> toplevel w' = toplevel w \<and>
         (r = None \<longrightarrow> refs w' = refs w \<and> worktree w' = worktree w \<and> report e c = Rejects) \<and>
         (broken e c \<longrightarrow> refs w' = refs w \<and> worktree w' = worktree w \<and>
            (report e c = Rejects \<longrightarrow> r = None))"
  using assms
  by (auto simp: exec_def git_def Let_def split: cmd.splits option.splits if_splits report.splits)

lemma exec_UpdateRef_cases:
  assumes "exec e (UpdateRef n k) w = (r, w')"
  shows "worktree w' = worktree w \<and>
         (refs w' = refs w \<or> refs w' = AList.update n k (refs w)) \<and>
         (\<not> broken e (UpdateRef n k) \<longrightarrow> r \<noteq> None \<and> refs w' = AList.update n k (refs w))"
  using assms by (auto simp: exec_def git_def Let_def split: if_splits report.splits)

lemma exec_DeleteRef_cases:
  assumes "exec e (DeleteRef n) w = (r, w')"
  shows "worktree w' = worktree w \<and>
         (refs w' = refs w \<or> refs w' = AList.delete n (refs w)) \<and>
         (\<not> broken e (DeleteRef n) \<longrightarrow> r \<noteq> None \<and> refs w' = AList.delete n (refs w))"
  using assms by (auto simp: exec_def git_def Let_def split: if_splits report.splits)

lemma exec_Checkout_cases:
  assumes "exec e (Checkout t) w = (r, w')" and "inside_work_tree w"
  shows "refs w' = refs w \<and>
         (r = None \<longrightarrow> worktree w' = worktree w) \<and>
         (broken e (Checkout t) \<or> resolve t w = None \<longrightarrow>
            worktree w' = worktree w \<and> (r \<noteq> None) = (report e (Checkout t) = Resolves)) \<and>
         (\<forall>tc. \<not> broken e (Checkout t) \<and> resolve t w = Some tc \<longrightarrow>
            worktree w' = worktree w ++ ctree tc \<and>
            (r \<noteq> None) = (ctree tc \<noteq> Map.empty \<or> report e (Checkout t) = Resolves))"
proof -
  have rs: "resolve t (w\<lparr>trace := trace w @ [Checkout t]\<rparr>) = resolve t w"
    by (rule resolve_refs) simp
  show ?thesis
    using assms unfolding exec_def Let_def
    by (cases "broken e (Checkout t)"; cases "resolve t w"; cases "report e (Checkout t)")
       (auto simp: git_def rs split: if_splits)
qed

lemma getRepoRoot_cases:
  assumes "getRepoRoot e s w = (r, s', w')"
    and "root = (if repoRoot s \<noteq> None \<and> repoRoot s \<noteq> Some [] then [] else [RevParseTopLevel])"
  shows "worktree w' = worktree w \<and> refs w' = refs w \<and> shown w' = shown w \<and>
         inside_work_tree w' = inside_work_tree w \<and> trace w' = trace w @ root \<and>
         checkpoints s' = checkpoints s \<and>
         (r = None \<longrightarrow> root = [RevParseTopLevel]) \<and>
         (broken e RevParseTopLevel \<and> report e RevParseTopLevel = Rejects \<and> root \<noteq> [] \<longrightarrow> r = None) \<and>
         ((\<not> broken e RevParseTopLevel \<and> inside_work_tree w) \<or> root = [] \<longrightarrow> r \<noteq> None) \<and>
         (r = None) = (root \<noteq> [] \<and> (broken e RevParseTopLevel \<or> \<not> inside_work_tree w) \<and>
                       report e RevParseTopLevel = Rejects)"
proof (cases "repoRoot s \<noteq> None \<and> repoRoot s \<noteq> Some []")
  case True
  then have "r = repoRoot s" "s' = s" "w' = w" "root = []"
    using assms by (auto simp: getRepoRoot_def)
  then show ?thesis using True by simp
next
  case False
  obtain r1 w1 where x: "exec e RevParseTopLevel w = (r1, w1)" by (cases "exec e RevParseTopLevel w")
  have X: "trace w1 = trace w @ [RevParseTopLevel] \<and> worktree w1 = worktree w \<and> refs w1 = refs w \<and>
           shown w1 = shown w \<and> inside_work_tree w1 = inside_work_tree w \<and>
           (broken e RevParseTopLevel \<and> report e RevParseTopLevel = Rejects \<longrightarrow> r1 = None) \<and>
           (\<not> broken e RevParseTopLevel \<and> inside_work_tree w \<longrightarrow> r1 \<noteq> None) \<and>
           (r1 = None) = ((broken e RevParseTopLevel \<or> \<not> inside_work_tree w) \<and>
                          report e RevParseTopLevel = Rejects)"
    using x by (auto simp: exec_def git_def Let_def split: if_splits report.splits)
  have "root = [RevParseTopLevel]" using False assms(2) by auto
  moreover have "w' = w1" "checkpoints s' = checkpoints s" "(r = None) = (r1 = None)"
    using assms(1) False x by (auto simp: getRepoRoot_def split: option.splits)
  ultimately show ?thesis using X by auto
qed

lemma captureWorktree_cases:
  assumes "captureWorktree e s w = (r, s', w')"
    and "root = (if repoRoot s \<noteq> None \<and> repoRoot s \<noteq> Some [] then [] else [RevParseTopLevel])"
  shows "worktree w' = worktree w \<and> refs w' = refs w \<and> shown w' = shown w \<and>
         inside_work_tree w' = inside_work_tree w \<and> checkpoints s' = checkpoints s \<and>
         (trace w' = trace w @ root @ [CaptureTree] \<or> (r = None \<and> trace w' = trace w @ root)) \<and>
         (r \<noteq> None \<longrightarrow> r = Some \<lparr>ctree = worktree w, cdate = now e div 1000\<rparr> \<and>
                       trace w' = trace w @ root @ [CaptureTree]) \<and>
         (broken e CaptureTree \<longrightarrow> r = None) \<and>
         (broken e RevParseTopLevel \<and> report e RevParseTopLevel = Rejects \<and> root \<noteq> [] \<longrightarrow> r = None) \<and>
         (\<not> broken e CaptureTree \<and> inside_work_tree w \<and> (\<not> broken e RevParseTopLevel \<or> root = [])
            \<longrightarrow> r \<noteq> None) \<and>
         (root \<noteq> [] \<and> (broken e RevParseTopLevel \<or> \<not> inside_work_tree w) \<and>
            report e RevParseTopLevel = Rejects \<longrightarrow> r = None \<and> trace w' = trace w @ root) \<and>
         (\<not> (root \<noteq> [] \<and> (broken e RevParseTopLevel \<or> \<not> inside_work_tree w) \<and>
               report e RevParseTopLevel = Rejects) \<longrightarrow>
            trace w' = trace w @ root @ [CaptureTree] \<and>
            (r = None) = (broken e CaptureTree \<or> \<not> inside_work_tree w))"
proof -
  obtain r0 s0 w0 where g: "getRepoRoot e s w = (r0, s0, w0)" by (cases "getRepoRoot e s w") auto
  note G = getRepoRoot_cases [OF g assms(2)]
  show ?thesis
  proof (cases r0)
    case None
    then have "r = None" "s' = s0" "w' = w0" using assms(1) g by (simp_all add: captureWorktree_def)
    then show ?thesis using G None by auto
  next
    case (Some rt)
    obtain r1 w1 where x: "execAsync e CaptureTree w0 = (r1, w1)" by (cases "execAsync e CaptureTree w0")
    have X: "trace w1 = trace w0 @ [CaptureTree] \<and> worktree w1 = worktree w0 \<and> refs w1 = refs w0 \<and>
             shown w1 = shown w0 \<and> inside_work_tree w1 = inside_work_tree w0 \<and>
             (broken e CaptureTree \<or> \<not> inside_work_tree w0 \<longrightarrow> r1 = None) \<and>
             (\<not> broken e CaptureTree \<and> inside_work_tree w0 \<longrightarrow>
                r1 = Some (Made \<lparr>ctree = worktree w0, cdate = now e div 1000\<rparr>))"
      using x by (auto simp: execAsync_def git_def Let_def split: if_splits)
    have "s' = s0" "w' = w1" "r = (case r1 of Some (Made k) \<Rightarrow> Some k | _ \<Rightarrow> None)"
      using assms(1) g Some x by (auto simp: captureWorktree_def split: option.splits stdout.splits)
    then show ?thesis using G X Some by (cases "broken e CaptureTree \<or> \<not> inside_work_tree w") auto
  qed
qed

lemma take_prefix_ex: "steps = new @ rest \<Longrightarrow> \<exists>m. base @ new = base @ take m steps"
  by (rule exI [of _ "length new"]) simp

lemma resolve_after_update:
  "resolve t w \<noteq> None \<Longrightarrow> refs w3 = AList.update n k (refs w) \<Longrightarrow> resolve t w3 \<noteq> None"
  by (auto simp: resolve_def AList.update_conv' split: target.splits)

lemma findBeforeRestoreRef_ok:
  "\<not> broken e ForEachRefBackup \<Longrightarrow>
   findBeforeRestoreRef e w = (latest_backup (refs w), w\<lparr>trace := trace w @ [ForEachRefBackup]\<rparr>)"
  by (simp add: findBeforeRestoreRef_def exec_def git_def stdout_latest_def)

text \<open>A restore in which nothing but the checkout can fail.\<close>

lemma captureWorktree_ok:
  assumes "captureWorktree e s w = (r, s', w')"
    and "\<not> broken e CaptureTree" and "\<not> broken e RevParseTopLevel" and "inside_work_tree w"
  shows "r = Some \<lparr>ctree = worktree w, cdate = now e div 1000\<rparr> \<and>
         worktree w' = worktree w \<and> refs w' = refs w \<and> inside_work_tree w'"
proof -
  note C = captureWorktree_cases [OF assms(1) refl]
  have "r \<noteq> None"
    using C [THEN conjunct2, THEN conjunct2, THEN conjunct2, THEN conjunct2, THEN conjunct2,
        THEN conjunct2, THEN conjunct2, THEN conjunct2, THEN conjunct2, THEN conjunct1] assms(2-4)
    by simp
  then have "r = Some \<lparr>ctree = worktree w, cdate = now e div 1000\<rparr>"
    using C [THEN conjunct2, THEN conjunct2, THEN conjunct2, THEN conjunct2, THEN conjunct2,
        THEN conjunct2, THEN conjunct1] by simp
  moreover have "worktree w' = worktree w" "refs w' = refs w" "inside_work_tree w'"
    using C [THEN conjunct1] C [THEN conjunct2, THEN conjunct1]
      C [THEN conjunct2, THEN conjunct2, THEN conjunct2, THEN conjunct1] assms(4) by simp_all
  ultimately show ?thesis by simp
qed

lemma restoreWithBackup_effect:
  assumes only: "\<forall>c. broken e c \<longrightarrow> (\<exists>x. c = Checkout x)"
    and inside: "inside_work_tree w"
    and run: "restoreWithBackup e t s w = (ok, s', w')"
    and k: "k = \<lparr>ctree = worktree w, cdate = now e div 1000\<rparr>"
    and new: "new = REF_PREFIX @ BEFORE_RESTORE_PREFIX @ show_nat (now e)"
  shows "refs w' =
           (case latest_backup (refs w) of
              None \<Rightarrow> AList.update new k (refs w)
            | Some (n, c) \<Rightarrow> AList.delete n (AList.update new k (refs w))) \<and>
         inside_work_tree w' \<and>
         (broken e (Checkout t) \<or> resolve t w' = None \<longrightarrow>
            worktree w' = worktree w \<and> ok = (report e (Checkout t) = Resolves)) \<and>
         (\<forall>tc. \<not> broken e (Checkout t) \<and> resolve t w' = Some tc \<longrightarrow>
            worktree w' = worktree w ++ ctree tc \<and>
            ok = (ctree tc \<noteq> Map.empty \<or> report e (Checkout t) = Resolves))"
proof -
  have nb: "\<not> broken e ForEachRefBackup" "\<not> broken e RevParseTopLevel" "\<not> broken e CaptureTree"
    "\<And>n c. \<not> broken e (UpdateRef n c)" "\<And>n. \<not> broken e (DeleteRef n)"
    using only by auto
  let ?w1 = "w\<lparr>trace := trace w @ [ForEachRefBackup]\<rparr>"
  have f: "findBeforeRestoreRef e w = (latest_backup (refs w), ?w1)"
    by (rule findBeforeRestoreRef_ok [OF nb(1)])
  obtain r s2 w2 where c: "captureWorktree e s ?w1 = (r, s2, w2)"
    by (cases "captureWorktree e s ?w1") auto
  have in1: "inside_work_tree ?w1" using inside by simp
  note C = captureWorktree_ok [OF c nb(3) nb(2) in1]
  have r: "r = Some k" using C k by simp
  have w2: "worktree w2 = worktree w" "refs w2 = refs w" "inside_work_tree w2" using C by simp_all
  obtain r3 w3 where u: "exec e (UpdateRef new k) w2 = (r3, w3)" by (cases "exec e (UpdateRef new k) w2")
  note U = exec_cases [OF u] exec_UpdateRef_cases [OF u]
  obtain out3 where r3: "r3 = Some out3" using U(2) nb(4) by auto
  have w3: "worktree w3 = worktree w" "refs w3 = AList.update new k (refs w)" "inside_work_tree w3"
    using U nb(4) w2 by simp_all
  obtain r4 w4 where d: "(case latest_backup (refs w) of None \<Rightarrow> (Some Quiet, w3)
                           | Some (refName, commitSha) \<Rightarrow> exec e (DeleteRef refName) w3) = (r4, w4)"
    by (cases "(case latest_backup (refs w) of None \<Rightarrow> (Some Quiet, w3)
                 | Some (refName, commitSha) \<Rightarrow> exec e (DeleteRef refName) w3)")
  have D: "r4 \<noteq> None \<and> worktree w4 = worktree w \<and> inside_work_tree w4 \<and>
           refs w4 = (case latest_backup (refs w) of
              None \<Rightarrow> AList.update new k (refs w)
            | Some (n, c) \<Rightarrow> AList.delete n (AList.update new k (refs w)))"
  proof (cases "latest_backup (refs w)")
    case None
    then show ?thesis using d w3 by auto
  next
    case (Some p)
    obtain n c0 where p: "p = (n, c0)" by (cases p)
    have x: "exec e (DeleteRef n) w3 = (r4, w4)" using d Some p by simp
    show ?thesis
      using exec_cases [OF x] exec_DeleteRef_cases [OF x] nb(5) Some p w3 by auto
  qed
  then obtain out4 where r4: "r4 = Some out4" by auto
  obtain r5 w5 where co: "exec e (Checkout t) w4 = (r5, w5)" by (cases "exec e (Checkout t) w4")
  have in4: "inside_work_tree w4" using D by simp
  note K = exec_cases [OF co] exec_Checkout_cases [OF co in4]
  have res: "ok = (r5 \<noteq> None)" "refs w' = refs w5" "worktree w' = worktree w5"
    "inside_work_tree w' = inside_work_tree w5"
    using run f c r u r3 d r4 co
    by (auto simp: restoreWithBackup_def new Let_def notify_def split: option.splits)
  have rf: "refs w' = refs w4" using res(2) K(2) by simp
  have rs: "resolve t w' = resolve t w4" using rf by (rule resolve_refs)
  have c1: "refs w' = (case latest_backup (refs w) of
              None \<Rightarrow> AList.update new k (refs w)
            | Some (n, c) \<Rightarrow> AList.delete n (AList.update new k (refs w)))"
    using rf D by simp
  have c2: "inside_work_tree w'" using res(4) K(1) D by simp
  have c3: "worktree w' = worktree w \<and> ok = (report e (Checkout t) = Resolves)"
    if "broken e (Checkout t) \<or> resolve t w' = None"
  proof -
    have "broken e (Checkout t) \<or> resolve t w4 = None" using that rs by simp
    then have "worktree w5 = worktree w4 \<and> (r5 \<noteq> None) = (report e (Checkout t) = Resolves)"
      using K(2) [THEN conjunct2, THEN conjunct2, THEN conjunct1] by simp
    then show ?thesis using res(1,3) D by simp
  qed
  have c4: "worktree w' = worktree w ++ ctree tc \<and>
              ok = (ctree tc \<noteq> Map.empty \<or> report e (Checkout t) = Resolves)"
    if "\<not> broken e (Checkout t) \<and> resolve t w' = Some tc" for tc
  proof -
    have "\<not> broken e (Checkout t) \<and> resolve t w4 = Some tc" using that rs by simp
    then have "worktree w5 = worktree w4 ++ ctree tc \<and>
               (r5 \<noteq> None) = (ctree tc \<noteq> Map.empty \<or> report e (Checkout t) = Resolves)"
      using K(2) [THEN conjunct2, THEN conjunct2, THEN conjunct2, rule_format, of tc] by simp
    then show ?thesis using res(1,3) D by simp
  qed
  show ?thesis using c1 c2 c3 c4 by blast
qed

text \<open>Each step of a restore by what makes it throw.\<close>

lemma captureWorktree_outcome:
  assumes run: "captureWorktree e s w = (r, s', w')"
    and root: "root = (if repoRoot s \<noteq> None \<and> repoRoot s \<noteq> Some [] then [] else [RevParseTopLevel])"
    and rt: "root_throws = (root \<noteq> [] \<and> (broken e RevParseTopLevel \<or> \<not> inside_work_tree w) \<and>
                            report e RevParseTopLevel = Rejects)"
    and ct: "capture_throws = (broken e CaptureTree \<or> \<not> inside_work_tree w)"
  shows "worktree w' = worktree w \<and> refs w' = refs w \<and> inside_work_tree w' = inside_work_tree w"
    and "root_throws \<Longrightarrow> r = None \<and> trace w' = trace w @ root"
    and "\<not> root_throws \<Longrightarrow> capture_throws \<Longrightarrow> r = None \<and> trace w' = trace w @ root @ [CaptureTree]"
    and "\<not> root_throws \<Longrightarrow> \<not> capture_throws \<Longrightarrow>
           r = Some \<lparr>ctree = worktree w, cdate = now e div 1000\<rparr> \<and>
           trace w' = trace w @ root @ [CaptureTree]"
proof -
  note C = captureWorktree_cases [OF run root]
  show "worktree w' = worktree w \<and> refs w' = refs w \<and> inside_work_tree w' = inside_work_tree w"
    using C [THEN conjunct1] C [THEN conjunct2, THEN conjunct1]
      C [THEN conjunct2, THEN conjunct2, THEN conjunct2, THEN conjunct1] by simp
  note last2 = C [THEN conjunct2, THEN conjunct2, THEN conjunct2, THEN conjunct2, THEN conjunct2,
        THEN conjunct2, THEN conjunct2, THEN conjunct2, THEN conjunct2, THEN conjunct2]
  note some = C [THEN conjunct2, THEN conjunct2, THEN conjunct2, THEN conjunct2, THEN conjunct2,
        THEN conjunct2, THEN conjunct1]
  show "r = None \<and> trace w' = trace w @ root" if "root_throws"
    using last2 [THEN conjunct1] that unfolding rt by simp
  have nt: "trace w' = trace w @ root @ [CaptureTree] \<and>
            (r = None) = (broken e CaptureTree \<or> \<not> inside_work_tree w)" if "\<not> root_throws"
    using last2 [THEN conjunct2] that unfolding rt by simp
  show "r = None \<and> trace w' = trace w @ root @ [CaptureTree]" if "\<not> root_throws" "capture_throws"
    using nt [OF that(1)] that(2) unfolding ct by simp
  show "r = Some \<lparr>ctree = worktree w, cdate = now e div 1000\<rparr> \<and>
        trace w' = trace w @ root @ [CaptureTree]" if "\<not> root_throws" "\<not> capture_throws"
  proof -
    have "r \<noteq> None" using nt [OF that(1)] that(2) unfolding ct by simp
    then show ?thesis using some nt [OF that(1)] by simp
  qed
qed

lemma exec_ref_outcome:
  assumes "exec e c w = (r, w')" and "(\<exists>n k. c = UpdateRef n k) \<or> (\<exists>n. c = DeleteRef n)"
  shows "trace w' = trace w @ [c] \<and> worktree w' = worktree w \<and>
         inside_work_tree w' = inside_work_tree w"
    and "(r = None) = (broken e c \<and> report e c = Rejects)"
    and "broken e c \<Longrightarrow> refs w' = refs w"
  using assms
  by (auto simp: exec_def git_def Let_def split: if_splits report.splits)

lemma exec_Checkout_outcome:
  assumes run: "exec e (Checkout t) w = (r, w')" and inside: "inside_work_tree w"
    and fails: "fails = (broken e (Checkout t) \<or>
                  (case resolve t w of None \<Rightarrow> True | Some tc \<Rightarrow> ctree tc = Map.empty))"
  shows "trace w' = trace w @ [Checkout t] \<and> refs w' = refs w"
    and "(r \<noteq> None) = (\<not> fails \<or> report e (Checkout t) = Resolves)"
    and "fails \<Longrightarrow> worktree w' = worktree w"
    and "\<not> fails \<Longrightarrow> resolve t w = Some tc \<Longrightarrow> worktree w' = worktree w ++ ctree tc"
proof -
  note K = exec_cases [OF run] exec_Checkout_cases [OF run inside]
  show "trace w' = trace w @ [Checkout t] \<and> refs w' = refs w"
    using K(1) [THEN conjunct1] K(2) [THEN conjunct1] by simp
  note bad = K(2) [THEN conjunct2, THEN conjunct2, THEN conjunct1]
  note good = K(2) [THEN conjunct2, THEN conjunct2, THEN conjunct2, rule_format]
  show "(r \<noteq> None) = (\<not> fails \<or> report e (Checkout t) = Resolves)"
  proof (cases "broken e (Checkout t) \<or> resolve t w = None")
    case True
    then have "fails" unfolding fails by auto
    then show ?thesis using bad True by simp
  next
    case False
    then obtain tc where tc: "resolve t w = Some tc" by auto
    have "fails = (ctree tc = Map.empty)" unfolding fails using False tc by simp
    then show ?thesis using good [of tc] False tc by simp
  qed
  show "worktree w' = worktree w" if "fails"
  proof (cases "broken e (Checkout t) \<or> resolve t w = None")
    case True
    then show ?thesis using bad by simp
  next
    case False
    then obtain tc where tc: "resolve t w = Some tc" by auto
    have "ctree tc = Map.empty" using that False tc unfolding fails by simp
    then show ?thesis using good [of tc] False tc by simp
  qed
  show "worktree w' = worktree w ++ ctree tc" if "\<not> fails" "resolve t w = Some tc"
  proof -
    have "\<not> broken e (Checkout t)" using that(1) unfolding fails by simp
    then show ?thesis using good [of tc] that(2) by simp
  qed
qed

lemma is_backup_ref_new: "is_backup_ref (REF_PREFIX @ BEFORE_RESTORE_PREFIX @ show_nat n)"
proof -
  have "CHR ''/'' \<notin> set (show_nat n)"
    using show_nat_digits [of "CHR ''/''" n] by (auto simp: is_digit_def)
  then show ?thesis
    unfolding is_backup_ref_def by (simp add: startsWith_def)
qed

lemma update_absent: "n \<notin> fst ` set al \<Longrightarrow> AList.update n v al = al @ [(n, v)]"
  by (induction al) auto

lemma latest_backup_few:
  assumes "length (filter (\<lambda>r. is_backup_ref (fst r)) rs) \<le> 1"
  shows "(filter (\<lambda>r. is_backup_ref (fst r)) rs = [] \<and> latest_backup rs = None) \<or>
         (\<exists>x. filter (\<lambda>r. is_backup_ref (fst r)) rs = [x] \<and> latest_backup rs = Some x)"
proof (cases "filter (\<lambda>r. is_backup_ref (fst r)) rs")
  case Nil
  then show ?thesis by (simp add: latest_backup_def)
next
  case (Cons x xs)
  then have "xs = []" using assms by simp
  then show ?thesis using Cons by (simp add: latest_backup_def)
qed

lemma backups_after_rotation:
  assumes few: "length (filter (\<lambda>r. is_backup_ref (fst r)) rs) \<le> 1"
    and fresh: "new \<notin> fst ` set rs" and bk: "is_backup_ref new"
  shows "filter (\<lambda>r. is_backup_ref (fst r))
           (case latest_backup rs of
              None \<Rightarrow> AList.update new k rs
            | Some (n, c) \<Rightarrow> AList.delete n (AList.update new k rs)) = [(new, k)]"
proof -
  have up: "AList.update new k rs = rs @ [(new, k)]" using fresh by (rule update_absent)
  from latest_backup_few [OF few] show ?thesis
  proof
    assume "filter (\<lambda>r. is_backup_ref (fst r)) rs = [] \<and> latest_backup rs = None"
    then show ?thesis using up bk by simp
  next
    assume "\<exists>x. filter (\<lambda>r. is_backup_ref (fst r)) rs = [x] \<and> latest_backup rs = Some x"
    then obtain x where x: "filter (\<lambda>r. is_backup_ref (fst r)) rs = [x]" "latest_backup rs = Some x"
      by auto
    obtain n c where p: "x = (n, c)" by (cases x)
    have "x \<in> set (filter (\<lambda>r. is_backup_ref (fst r)) rs)" using x(1) by simp
    then have "n \<in> fst ` set rs" using p by force
    then have ne: "new \<noteq> n" using fresh by auto
    have "filter (\<lambda>r. is_backup_ref (fst r)) (AList.delete n (rs @ [(new, k)])) =
          filter (\<lambda>r. fst r \<noteq> n) (filter (\<lambda>r. is_backup_ref (fst r)) (rs @ [(new, k)]))"
      by (auto simp: AList.delete_eq case_prod_unfold intro: filter_cong)
    also have "\<dots> = [(new, k)]" using x(1) p bk ne by simp
    finally show ?thesis using x(2) p up by simp
  qed
qed

subsection \<open>The example repositories\<close>

lemma saved_world_backups: "filter (\<lambda>r. is_backup_ref (fst r)) (refs saved_world) = []"
  by (simp add: saved_world_def is_backup_ref_def startsWith_def
      REF_PREFIX_def BEFORE_RESTORE_PREFIX_def)

lemma backed_world_backups:
  "filter (\<lambda>r. is_backup_ref (fst r)) (refs backed_world) =
     [(''refs/pi-checkpoints/before-restore-1700000002000'',
       \<lparr>ctree = [''a.txt'' \<mapsto> ''2''], cdate = 1700000002\<rparr>)]"
  by (simp add: backed_world_def saved_world_backups)
     (simp add: is_backup_ref_def startsWith_def REF_PREFIX_def BEFORE_RESTORE_PREFIX_def)

lemma cluttered_world_backups:
  "filter (\<lambda>r. is_backup_ref (fst r)) (refs cluttered_world) =
     [(''refs/pi-checkpoints/before-restore-1700000002000'',
       \<lparr>ctree = [''a.txt'' \<mapsto> ''2''], cdate = 1700000002\<rparr>),
      (''refs/pi-checkpoints/before-restore-1700000003000'',
       \<lparr>ctree = [''a.txt'' \<mapsto> ''3''], cdate = 1700000003\<rparr>)]"
  by (simp add: cluttered_world_def saved_world_backups)
     (simp add: is_backup_ref_def startsWith_def REF_PREFIX_def BEFORE_RESTORE_PREFIX_def)

lemma show_now: "show_nat 1700000005000 = ''1700000005000''"
  by (simp add: show_nat.simps digit_char_def)

lemma new_backup_name:
  "REF_PREFIX @ BEFORE_RESTORE_PREFIX @ show_nat 1700000005000 =
   ''refs/pi-checkpoints/before-restore-1700000005000''"
  by (simp add: show_now REF_PREFIX_def BEFORE_RESTORE_PREFIX_def)

lemma inside_examples:
  "inside_work_tree saved_world" "inside_work_tree backed_world" "inside_work_tree cluttered_world"
  by (simp_all add: saved_world_def backed_world_def cluttered_world_def demo_world_def)

lemma failed_capture:
  "restoreWithBackup (no_capture t) x demo_ext saved_world =
     (False, demo_ext,
      saved_world\<lparr>trace := [ForEachRefBackup, CaptureTree],
                  shown := [Notify ''Failed to restore'' ''error'']\<rparr>)"
  by (simp add: restoreWithBackup_def findBeforeRestoreRef_def captureWorktree_def getRepoRoot_def
      exec_def execAsync_def git_def no_capture_def demo_ext_def notify_def stdout_latest_def
      saved_world_def demo_world_def)

subsection \<open>Undo after a restore\<close>

lemma latest_backup_single:
  "filter (\<lambda>r. is_backup_ref (fst r)) rs = [x] \<Longrightarrow> latest_backup rs = Some x"
  by (simp add: latest_backup_def)

lemma latest_backup_is_backup:
  assumes "length (filter (\<lambda>r. is_backup_ref (fst r)) rs) \<le> 1"
    and "latest_backup rs = Some (n, c)"
  shows "is_backup_ref n"
proof -
  from latest_backup_few [OF assms(1)] assms(2)
  obtain x where x: "filter (\<lambda>r. is_backup_ref (fst r)) rs = [x]" "x = (n, c)" by auto
  then have "(n, c) \<in> set (filter (\<lambda>r. is_backup_ref (fst r)) rs)" by simp
  then show ?thesis by simp
qed

lemma resolve_after_rotation:
  assumes "resolve t w = Some tc" and "\<forall>m. t = ByRef m \<longrightarrow> \<not> is_backup_ref m"
    and "is_backup_ref new"
    and "length (filter (\<lambda>r. is_backup_ref (fst r)) (refs w)) \<le> 1"
    and "refs w1 =
           (case latest_backup (refs w) of
              None \<Rightarrow> AList.update new k (refs w)
            | Some (n, c) \<Rightarrow> AList.delete n (AList.update new k (refs w)))"
  shows "resolve t w1 = Some tc"
proof (cases t)
  case (BySha c)
  then show ?thesis using assms(1) by (simp add: resolve_def)
next
  case (ByRef m)
  then have m: "\<not> is_backup_ref m" "map_of (refs w) m = Some tc"
    using assms(1,2) by (simp_all add: resolve_def)
  then have ne: "m \<noteq> new" using assms(3) by auto
  show ?thesis
  proof (cases "latest_backup (refs w)")
    case None
    then show ?thesis using ByRef m ne assms(5) by (simp add: resolve_def AList.update_conv')
  next
    case (Some p)
    obtain n c where p: "p = (n, c)" by (cases p)
    have "is_backup_ref n" using latest_backup_is_backup [OF assms(4)] Some p by simp
    then have "m \<noteq> n" using m(1) by auto
    then show ?thesis
      using ByRef m ne assms(5) Some p
      by (simp add: resolve_def AList.update_conv' AList.delete_conv')
  qed
qed

lemma not_backup_e1: "\<not> is_backup_ref ''refs/pi-checkpoints/checkpoint-1700000000000-e1''"
  and not_backup_e2: "\<not> is_backup_ref ''refs/pi-checkpoints/checkpoint-1700000001000-e2''"
  by (simp_all add: is_backup_ref_def startsWith_def REF_PREFIX_def BEFORE_RESTORE_PREFIX_def)

lemma resolve_e1:
  "resolve (ByRef ''refs/pi-checkpoints/checkpoint-1700000000000-e1'') saved_world =
     Some \<lparr>ctree = [''a.txt'' \<mapsto> ''0''], cdate = 1700000000\<rparr>"
  and resolve_e2:
  "resolve (ByRef ''refs/pi-checkpoints/checkpoint-1700000001000-e2'') saved_world =
     Some \<lparr>ctree = [''a.txt'' \<mapsto> ''0'', ''b.txt'' \<mapsto> ''5''], cdate = 1700000001\<rparr>"
  by (simp_all add: resolve_def saved_world_def demo_world_def)

lemma restore_and_undo_steps:
  assumes calm1: "\<forall>c. \<not> broken e1 c" and calm2: "\<forall>c. \<not> broken e2 c"
    and inside: "inside_work_tree w"
    and few: "length (filter (\<lambda>r. is_backup_ref (fst r)) (refs w)) \<le> 1"
    and fresh: "REF_PREFIX @ BEFORE_RESTORE_PREFIX @ show_nat (now e1) \<notin> fst ` set (refs w)"
    and target: "resolve t w = Some tc"
    and kind: "\<forall>m. t = ByRef m \<longrightarrow> \<not> is_backup_ref m"
    and first: "restoreWithBackup e1 t s w = (ok1, s1, w1)"
    and look: "findBeforeRestoreRef e2 w1 = (b, w1')"
    and undo: "restoreWithBackup e2 (BySha (snd (the b))) s1 w1' = (ok2, s2, w2)"
  shows "ok1 = (ctree tc \<noteq> Map.empty \<or> report e1 (Checkout t) = Resolves) \<and>
         worktree w1 = worktree w ++ ctree tc \<and>
         b = Some (REF_PREFIX @ BEFORE_RESTORE_PREFIX @ show_nat (now e1),
                   \<lparr>ctree = worktree w, cdate = now e1 div 1000\<rparr>) \<and>
         ok2 = (worktree w \<noteq> Map.empty \<or>
                report e2 (Checkout (BySha \<lparr>ctree = worktree w, cdate = now e1 div 1000\<rparr>)) = Resolves) \<and>
         worktree w2 = (worktree w ++ ctree tc) ++ worktree w \<and>
         (\<forall>p\<in>dom (worktree w). worktree w2 p = worktree w p) \<and>
         (\<forall>p. p \<notin> dom (worktree w) \<longrightarrow> worktree w2 p = ctree tc p) \<and>
         (dom (ctree tc) \<subseteq> dom (worktree w) \<longrightarrow> worktree w2 = worktree w)"
proof -
  define new where "new = REF_PREFIX @ BEFORE_RESTORE_PREFIX @ show_nat (now e1)"
  define k where "k = \<lparr>ctree = worktree w, cdate = now e1 div 1000\<rparr>"
  have only1: "\<forall>c. broken e1 c \<longrightarrow> (\<exists>x. c = Checkout x)" using calm1 by simp
  have only2: "\<forall>c. broken e2 c \<longrightarrow> (\<exists>x. c = Checkout x)" using calm2 by simp
  note E1 = restoreWithBackup_effect [OF only1 inside first k_def new_def]
  have bk: "is_backup_ref new" unfolding new_def by (rule is_backup_ref_new)
  have refs1: "refs w1 =
           (case latest_backup (refs w) of
              None \<Rightarrow> AList.update new k (refs w)
            | Some (n, c) \<Rightarrow> AList.delete n (AList.update new k (refs w)))"
    using E1 by simp
  have res1: "resolve t w1 = Some tc"
    by (rule resolve_after_rotation [OF target kind bk few refs1])
  have nb1: "\<not> broken e1 (Checkout t) \<and> resolve t w1 = Some tc" using res1 calm1 by simp
  note G1 = E1 [THEN conjunct2, THEN conjunct2, THEN conjunct2, rule_format, OF nb1]
  have a: "ok1 = (ctree tc \<noteq> Map.empty \<or> report e1 (Checkout t) = Resolves)"
    "worktree w1 = worktree w ++ ctree tc" using G1 by simp_all
  have in1: "inside_work_tree w1" using E1 [THEN conjunct2, THEN conjunct1] .
  have "filter (\<lambda>r. is_backup_ref (fst r)) (refs w1) = [(new, k)]"
    unfolding refs1 using backups_after_rotation [OF few _ bk, of k] fresh new_def by simp
  then have "latest_backup (refs w1) = Some (new, k)" by (rule latest_backup_single)
  then have b: "b = Some (new, k)" and w1': "w1' = w1\<lparr>trace := trace w1 @ [ForEachRefBackup]\<rparr>"
    using look findBeforeRestoreRef_ok [of e2 w1] calm2 by simp_all
  have in1': "inside_work_tree w1'" "worktree w1' = worktree w1" using in1 w1' by simp_all
  have undo': "restoreWithBackup e2 (BySha k) s1 w1' = (ok2, s2, w2)" using undo b by simp
  note E2 = restoreWithBackup_effect [OF only2 in1'(1) undo' refl refl]
  have nb2: "\<not> broken e2 (Checkout (BySha k)) \<and> resolve (BySha k) w2 = Some k"
    using calm2 by (simp add: resolve_def)
  note G2 = E2 [THEN conjunct2, THEN conjunct2, THEN conjunct2, rule_format, OF nb2]
  have c: "ok2 = (worktree w \<noteq> Map.empty \<or> report e2 (Checkout (BySha k)) = Resolves)"
    "worktree w2 = worktree w1' ++ ctree k" using G2 by (simp_all add: k_def)
  have wt: "worktree w2 = (worktree w ++ ctree tc) ++ worktree w"
    using c(2) in1'(2) a(2) by (simp add: k_def)
  have old: "\<forall>p\<in>dom (worktree w). worktree w2 p = worktree w p"
    unfolding wt by (auto simp: map_add_def split: option.splits)
  have added: "\<forall>p. p \<notin> dom (worktree w) \<longrightarrow> worktree w2 p = ctree tc p"
    unfolding wt by (auto simp: map_add_def dom_def split: option.splits)
  have same: "dom (ctree tc) \<subseteq> dom (worktree w) \<longrightarrow> worktree w2 = worktree w"
  proof
    assume d: "dom (ctree tc) \<subseteq> dom (worktree w)"
    show "worktree w2 = worktree w"
    proof
      fix p
      show "worktree w2 p = worktree w p"
      proof (cases "worktree w p")
        case None
        then have "p \<notin> dom (ctree tc)" using d by (auto simp: dom_def)
        then have "ctree tc p = None" by (simp add: dom_def)
        then show ?thesis using None unfolding wt by (simp add: map_add_def)
      next
        case (Some v)
        then show ?thesis unfolding wt by (simp add: map_add_def)
      qed
    qed
  qed
  show ?thesis using a(1) a(2) b c(1) wt old added same unfolding new_def k_def by blast
qed

lemma restore_then_undo_final:
  assumes "resolve t saved_world = Some tc" and "\<forall>m. t = ByRef m \<longrightarrow> \<not> is_backup_ref m"
  shows "worktree (snd (snd (restore_then_undo (calm 1700000005000) (calm 1700000006000) t
           demo_ext saved_world))) = ([''a.txt'' \<mapsto> ''1''] ++ ctree tc) ++ [''a.txt'' \<mapsto> ''1'']"
proof -
  let ?e1 = "calm 1700000005000" and ?e2 = "calm 1700000006000"
  obtain ok1 s1 w1 where first: "restoreWithBackup ?e1 t demo_ext saved_world = (ok1, s1, w1)"
    by (cases "restoreWithBackup ?e1 t demo_ext saved_world") auto
  obtain b w1' where look: "findBeforeRestoreRef ?e2 w1 = (b, w1')"
    by (cases "findBeforeRestoreRef ?e2 w1")
  obtain ok2 s2 w2 where undo: "restoreWithBackup ?e2 (BySha (snd (the b))) s1 w1' = (ok2, s2, w2)"
    by (cases "restoreWithBackup ?e2 (BySha (snd (the b))) s1 w1'") auto
  have calm: "\<forall>c. \<not> broken ?e1 c" "\<forall>c. \<not> broken ?e2 c" by (simp_all add: calm_def)
  have few: "length (filter (\<lambda>r. is_backup_ref (fst r)) (refs saved_world)) \<le> 1"
    by (simp add: saved_world_backups)
  have fresh: "REF_PREFIX @ BEFORE_RESTORE_PREFIX @ show_nat (now ?e1) \<notin> fst ` set (refs saved_world)"
    by (simp add: calm_def new_backup_name saved_world_def demo_world_def)
  note S = restore_and_undo_steps [OF calm inside_examples(1) few fresh assms first look undo]
  have b: "b = Some (REF_PREFIX @ BEFORE_RESTORE_PREFIX @ show_nat (now ?e1),
                   \<lparr>ctree = worktree saved_world, cdate = now ?e1 div 1000\<rparr>)"
    using S [THEN conjunct2, THEN conjunct2, THEN conjunct1] .
  have "restore_then_undo ?e1 ?e2 t demo_ext saved_world = (ok1, ok2, w2)"
    using first look undo unfolding restore_then_undo_def b by simp
  moreover have "worktree saved_world = [''a.txt'' \<mapsto> ''1'']"
    by (simp add: saved_world_def demo_world_def)
  ultimately show ?thesis
    using S [THEN conjunct2, THEN conjunct2, THEN conjunct2, THEN conjunct2, THEN conjunct1] by simp
qed

lemma bare_world_facts:
  "inside_work_tree bare_world" "refs bare_world = refs saved_world"
  "worktree bare_world = Map.empty"
  by (simp_all add: bare_world_def saved_world_def demo_world_def)


section \<open>Turns after the first\<close>

text \<open>
  C10. A \<open>turn_start\<close> event whose turn index is not 0 captures nothing and leaves the
  extension state, the pending slot included, and the repository as they were (no
  command is run); a \<open>turn_end\<close> event whose turn index is not 0 writes no ref and
  leaves the checkpoint map and the pending slot as they were.
\<close>

theorem later_turns_are_ignored:
  assumes "turnIndex ev \<noteq> 0"
  shows "turn_start cx e ev s w = (s, w) \<and> turn_end cx e ev s w = (s, w)"
  using assms by (simp add: turn_start_def turn_end_def split: option.split prod.split)

theorem later_turns_are_ignored_witness:
  "turnIndex \<lparr>turnIndex = 1, timestamp = 1700000000000\<rparr> \<noteq> 0 \<and>
   turn_start (demo_ctx (\<lambda>opts. None)) (calm 1700000000000)
     \<lparr>turnIndex = 1, timestamp = 1700000000000\<rparr> demo_ext demo_world = (demo_ext, demo_world) \<and>
   turn_end (demo_ctx (\<lambda>opts. None)) (calm 1700000000000)
     \<lparr>turnIndex = 1, timestamp = 1700000000000\<rparr>
     (demo_ext\<lparr>pendingCheckpoint := Some (\<lparr>ctree = worktree demo_world, cdate = 1700000000\<rparr>, 1700000000000)\<rparr>)
     demo_world =
     (demo_ext\<lparr>pendingCheckpoint := Some (\<lparr>ctree = worktree demo_world, cdate = 1700000000\<rparr>, 1700000000000)\<rparr>,
      demo_world)"
  using later_turns_are_ignored [of "\<lparr>turnIndex = 1, timestamp = 1700000000000\<rparr>"]
  by simp

section \<open>Which snapshot a branch request restores\<close>

text \<open>
  C9. A branch request for entry id \<open>x\<close>, served with a UI inside a work tree, resolves
  its restore target in this order. (a) If the checkpoint map has a checkpoint id \<open>c\<close>
  for the sanitized \<open>x\<close>, the menu offers "Restore all", "Conversation only" and "Code
  only", and both restore choices run \<open>restoreWithBackup\<close> on the ref
  \<open>refs/pi-checkpoints/c\<close>. (b) Otherwise, if there is a resume checkpoint \<open>r\<close>, the
  menu is worded as a restore to session start and both restore choices run
  \<open>restoreWithBackup\<close> on \<open>refs/pi-checkpoints/r\<close>. (c) Otherwise the menu offers no
  restore of files to a checkpoint, only "Conversation only", which touches nothing.
  In all three cases the menu ends with the undo entry when a before-restore backup
  exists.
\<close>

theorem restore_target_resolution:
  assumes "hasUI cx" "inside_work_tree w" "\<not> broken e RevParseInside"
    and "findBeforeRestoreRef e (w\<lparr>trace := trace w @ [RevParseInside]\<rparr>) = (b, w2)"
    and "undo = (if b \<noteq> None then [''Undo last file rewind''] else [])"
    and "found = map_of (checkpoints s) (sanitizeForRef x)"
    and "menu = (\<lambda>opts. w2\<lparr>shown := shown w2 @ [Select opts]\<rparr>)"
    and "run = session_before_branch cx e x s w"
  shows
   "(\<forall>c opts. found = Some c \<and> c \<noteq> [] \<and>
        opts = [''Restore all (files + conversation)'', ''Conversation only (keep current files)'',
                ''Code only (restore files, keep conversation)''] @ undo \<longrightarrow>
        Select opts \<in> set (shown (snd (snd run))) \<and>
        (select cx opts = Some ''Restore all (files + conversation)'' \<longrightarrow>
           run = (case restoreWithBackup e (ByRef (REF_PREFIX @ c)) s (menu opts) of
                    (ok, s4, w4) \<Rightarrow>
                      if ok then (NoResult, s4, notify ''Files restored from checkpoint'' ''info'' w4)
                      else (Cancel, s4, w4))) \<and>
        (select cx opts = Some ''Code only (restore files, keep conversation)'' \<longrightarrow>
           run = (case restoreWithBackup e (ByRef (REF_PREFIX @ c)) s (menu opts) of
                    (ok, s4, w4) \<Rightarrow>
                      if ok then (SkipConversationRestore, s4,
                                  notify ''Files restored from checkpoint'' ''info'' w4)
                      else (Cancel, s4, w4)))) \<and>
    (\<forall>r opts. \<not> truthy found \<and> resumeCheckpoint s = Some r \<and> r \<noteq> [] \<and>
        opts = [''Restore to session start (files + conversation)'',
                ''Conversation only (keep current files)'',
                ''Restore to session start (files only, keep conversation)''] @ undo \<longrightarrow>
        Select opts \<in> set (shown (snd (snd run))) \<and>
        (select cx opts = Some ''Restore to session start (files + conversation)'' \<longrightarrow>
           run = (case restoreWithBackup e (ByRef (REF_PREFIX @ r)) s (menu opts) of
                    (ok, s4, w4) \<Rightarrow>
                      if ok then (NoResult, s4, notify ''Files restored to session start'' ''info'' w4)
                      else (Cancel, s4, w4))) \<and>
        (select cx opts = Some ''Restore to session start (files only, keep conversation)'' \<longrightarrow>
           run = (case restoreWithBackup e (ByRef (REF_PREFIX @ r)) s (menu opts) of
                    (ok, s4, w4) \<Rightarrow>
                      if ok then (SkipConversationRestore, s4,
                                  notify ''Files restored to session start'' ''info'' w4)
                      else (Cancel, s4, w4)))) \<and>
    (\<forall>opts. \<not> truthy found \<and> \<not> truthy (resumeCheckpoint s) \<and>
        opts = [''Conversation only (keep current files)''] @ undo \<longrightarrow>
        Select opts \<in> set (shown (snd (snd run))) \<and>
        (select cx opts = Some ''Conversation only (keep current files)'' \<longrightarrow>
           run = (NoResult, s, menu opts)))"
proof (intro conjI allI impI; (elim conjE)?)
  fix c opts
  assume f: "found = Some c" and c: "c \<noteq> []"
    and o: "opts = [''Restore all (files + conversation)'', ''Conversation only (keep current files)'',
                ''Code only (restore files, keep conversation)''] @ undo"
  have o': "opts = branch_options found False (b \<noteq> None)"
    using f c o assms(5) by (simp add: branch_options_def truthy_def)
  have eq: "run = branch_choice e found False b (select cx opts) s (menu opts)"
    unfolding assms(8) assms(7)
    by (rule session_before_branch_menu [OF assms(1-4) assms(6) _ _ o'])
       (simp_all add: f c truthy_def)
  show "Select opts \<in> set (shown (snd (snd run)))"
    unfolding eq assms(7) by (rule branch_choice_menu)
  {
    assume "select cx opts = Some ''Restore all (files + conversation)''"
    then show "run = (case restoreWithBackup e (ByRef (REF_PREFIX @ c)) s (menu opts) of
                    (ok, s4, w4) \<Rightarrow>
                      if ok then (NoResult, s4, notify ''Files restored from checkpoint'' ''info'' w4)
                      else (Cancel, s4, w4))"
      unfolding eq f by (subst restore_choice_eq) (auto split: prod.splits)
  }
  {
    assume "select cx opts = Some ''Code only (restore files, keep conversation)''"
    then show "run = (case restoreWithBackup e (ByRef (REF_PREFIX @ c)) s (menu opts) of
                    (ok, s4, w4) \<Rightarrow>
                      if ok then (SkipConversationRestore, s4,
                                  notify ''Files restored from checkpoint'' ''info'' w4)
                      else (Cancel, s4, w4))"
      unfolding eq f by (subst restore_choice_eq) (auto split: prod.splits)
  }
next
  fix r opts
  assume f: "\<not> truthy found" and r: "resumeCheckpoint s = Some r" "r \<noteq> []"
    and o: "opts = [''Restore to session start (files + conversation)'',
                ''Conversation only (keep current files)'',
                ''Restore to session start (files only, keep conversation)''] @ undo"
  have o': "opts = branch_options (Some r) True (b \<noteq> None)"
    using r o assms(5) by (simp add: branch_options_def truthy_def)
  have eq: "run = branch_choice e (Some r) True b (select cx opts) s (menu opts)"
    unfolding assms(8) assms(7)
    by (rule session_before_branch_menu [OF assms(1-4) assms(6) _ _ o'])
       (use f r in \<open>simp_all add: truthy_def\<close>)
  show "Select opts \<in> set (shown (snd (snd run)))"
    unfolding eq assms(7) by (rule branch_choice_menu)
  {
    assume "select cx opts = Some ''Restore to session start (files + conversation)''"
    then show "run = (case restoreWithBackup e (ByRef (REF_PREFIX @ r)) s (menu opts) of
                    (ok, s4, w4) \<Rightarrow>
                      if ok then (NoResult, s4, notify ''Files restored to session start'' ''info'' w4)
                      else (Cancel, s4, w4))"
      unfolding eq by (subst restore_choice_eq) (auto split: prod.splits)
  }
  {
    assume "select cx opts = Some ''Restore to session start (files only, keep conversation)''"
    then show "run = (case restoreWithBackup e (ByRef (REF_PREFIX @ r)) s (menu opts) of
                    (ok, s4, w4) \<Rightarrow>
                      if ok then (SkipConversationRestore, s4,
                                  notify ''Files restored to session start'' ''info'' w4)
                      else (Cancel, s4, w4))"
      unfolding eq by (subst restore_choice_eq) (auto split: prod.splits)
  }
next
  fix opts
  assume f: "\<not> truthy found" and r: "\<not> truthy (resumeCheckpoint s)"
    and o: "opts = [''Conversation only (keep current files)''] @ undo"
  have o': "opts = branch_options found False (b \<noteq> None)"
    using f o assms(5) by (simp add: branch_options_def)
  have eq: "run = branch_choice e found False b (select cx opts) s (menu opts)"
    unfolding assms(8) assms(7)
    by (rule session_before_branch_menu [OF assms(1-4) assms(6) _ _ o'])
       (simp_all add: f r)
  show "Select opts \<in> set (shown (snd (snd run)))"
    unfolding eq assms(7) by (rule branch_choice_menu)
  {
    assume "select cx opts = Some ''Conversation only (keep current files)''"
    then show "run = (NoResult, s, menu opts)"
      unfolding eq by (simp add: branch_choice_def truthy_def startsWith_def)
  }
qed

theorem restore_target_resolution_witness:
  "hasUI (demo_ctx (\<lambda>opts. Some ''Conversation only (keep current files)'')) \<and>
   inside_work_tree demo_world \<and> \<not> broken (calm 1700000000500) RevParseInside \<and>
   Select [''Restore all (files + conversation)'', ''Conversation only (keep current files)'',
           ''Code only (restore files, keep conversation)'']
     \<in> set (shown (snd (snd (session_before_branch
          (demo_ctx (\<lambda>opts. Some ''Conversation only (keep current files)''))
          (calm 1700000000500) ''e1''
          (demo_ext\<lparr>checkpoints := [(''e1'', ''checkpoint-1700000000000-e1'')]\<rparr>) demo_world)))) \<and>
   Select [''Restore to session start (files + conversation)'',
           ''Conversation only (keep current files)'',
           ''Restore to session start (files only, keep conversation)'']
     \<in> set (shown (snd (snd (session_before_branch
          (demo_ctx (\<lambda>opts. Some ''Conversation only (keep current files)''))
          (calm 1700000000500) ''e0''
          (demo_ext\<lparr>checkpoints := [(''e1'', ''checkpoint-1700000000000-e1'')],
                     resumeCheckpoint := Some ''checkpoint-resume-1690000000000''\<rparr>) demo_world)))) \<and>
   session_before_branch (demo_ctx (\<lambda>opts. Some ''Conversation only (keep current files)''))
     (calm 1700000000500) ''e0'' demo_ext demo_world =
     (NoResult, demo_ext,
      demo_world\<lparr>trace := [RevParseInside, ForEachRefBackup],
                 shown := [Select [''Conversation only (keep current files)'']]\<rparr>)"
proof -
  let ?cx = "demo_ctx (\<lambda>opts. Some ''Conversation only (keep current files)'')"
  let ?e = "calm 1700000000500"
  have g: "hasUI ?cx" "inside_work_tree demo_world" "\<not> broken ?e RevParseInside"
    by (simp_all add: demo_ctx_def demo_world_def calm_def)
  have sane1: "sanitizeForRef ''e1'' = ''e1''" and sane0: "sanitizeForRef ''e0'' = ''e0''"
    by (simp_all add: sanitizeForRef_def is_ref_safe_def is_digit_def)
  note r = restore_target_resolution [OF g demo_find refl refl refl refl]
  have a: "Select [''Restore all (files + conversation)'', ''Conversation only (keep current files)'',
           ''Code only (restore files, keep conversation)'']
     \<in> set (shown (snd (snd (session_before_branch ?cx ?e ''e1''
          (demo_ext\<lparr>checkpoints := [(''e1'', ''checkpoint-1700000000000-e1'')]\<rparr>) demo_world))))"
    using r [of "demo_ext\<lparr>checkpoints := [(''e1'', ''checkpoint-1700000000000-e1'')]\<rparr>" "''e1''"]
    by (simp add: sane1)
  have b: "Select [''Restore to session start (files + conversation)'',
           ''Conversation only (keep current files)'',
           ''Restore to session start (files only, keep conversation)'']
     \<in> set (shown (snd (snd (session_before_branch ?cx ?e ''e0''
          (demo_ext\<lparr>checkpoints := [(''e1'', ''checkpoint-1700000000000-e1'')],
                     resumeCheckpoint := Some ''checkpoint-resume-1690000000000''\<rparr>) demo_world))))"
    using r [of "demo_ext\<lparr>checkpoints := [(''e1'', ''checkpoint-1700000000000-e1'')],
                     resumeCheckpoint := Some ''checkpoint-resume-1690000000000''\<rparr>" "''e0''"]
    by (simp add: sane0 truthy_def)
  have c: "session_before_branch ?cx ?e ''e0'' demo_ext demo_world =
     (NoResult, demo_ext,
      demo_world\<lparr>trace := [RevParseInside, ForEachRefBackup],
                 shown := [Select [''Conversation only (keep current files)'']]\<rparr>)"
    using r [of demo_ext "''e0''"]
    by (simp add: sane0 truthy_def demo_ext_def demo_ctx_def demo_world_def)
  show ?thesis using g a b c by blast
qed

section \<open>Pruning\<close>



text \<open>
  C6. In every prune pass, whatever the commands do, an entry id leaves the checkpoint
  map only if the map held for it the checkpoint id of a ref that the pass set out to
  delete; an entry whose ref is not among those stays as it was, so a newer checkpoint
  of an entry id is not evicted by the deletion of an older ref of the same id. If
  before the pass every map entry decodes to its own key and names a ref of the store,
  the same holds after the pass: no entry points to a deleted ref.
\<close>

theorem prune_evicts_only_the_deleted:
  assumes "pruneCheckpoints e s w = (s', w')"
    and "turn_refs = filter is_checkpoint_ref (for_each_ref (refs w))"
    and "doomed = take (length turn_refs - 100) turn_refs"
  shows "(\<forall>E. map_of (checkpoints s') E = map_of (checkpoints s) E \<or>
              (map_of (checkpoints s') E = None \<and>
               (\<exists>v. map_of (checkpoints s) E = Some v \<and> REF_PREFIX @ v \<in> set doomed))) \<and>
         (\<forall>E v. map_of (checkpoints s) E = Some v \<and> REF_PREFIX @ v \<notin> set doomed \<longrightarrow>
              map_of (checkpoints s') E = Some v) \<and>
         ((\<forall>E v. map_of (checkpoints s) E = Some v \<longrightarrow>
              map_option snd (match_checkpoint v) = Some E \<and>
              REF_PREFIX @ v \<in> fst ` set (refs w)) \<longrightarrow>
          (\<forall>E v. map_of (checkpoints s') E = Some v \<longrightarrow>
              map_option snd (match_checkpoint v) = Some E \<and>
              REF_PREFIX @ v \<in> fst ` set (refs w')))"
proof -
  have pre: "\<forall>r\<in>set doomed. startsWith r REF_PREFIX"
    unfolding assms(3) assms(2)
    by (meson for_each_ref_prefix in_set_takeD filter_is_subset subsetD)
  from pruneCheckpoints_cases [OF assms(1) assms(2)]
  have A: "map_of (checkpoints s') E = map_of (checkpoints s) E \<or>
              (map_of (checkpoints s') E = None \<and>
               (\<exists>v. map_of (checkpoints s) E = Some v \<and> REF_PREFIX @ v \<in> set doomed))" for E
  proof
    assume "s' = s \<and> refs w' = refs w"
    then show ?thesis by simp
  next
    assume "\<exists>w1. refs w1 = refs w \<and>
            prune_loop e (take (length turn_refs - 100) turn_refs) s w1 = (s', w')"
    then obtain w1 where "prune_loop e doomed s w1 = (s', w')" by (auto simp: assms(3))
    from prune_loop_map [OF this pre] show ?thesis .
  qed
  have B: "map_of (checkpoints s') E = Some v"
    if "map_of (checkpoints s) E = Some v \<and> REF_PREFIX @ v \<notin> set doomed" for E v
    using A [of E] that by auto
  have C: "\<forall>E v. map_of (checkpoints s') E = Some v \<longrightarrow>
              map_option snd (match_checkpoint v) = Some E \<and>
              REF_PREFIX @ v \<in> fst ` set (refs w')"
    if inv: "\<forall>E v. map_of (checkpoints s) E = Some v \<longrightarrow>
              map_option snd (match_checkpoint v) = Some E \<and>
              REF_PREFIX @ v \<in> fst ` set (refs w)"
    using pruneCheckpoints_cases [OF assms(1) assms(2)]
  proof
    assume "s' = s \<and> refs w' = refs w"
    then show ?thesis using inv by simp
  next
    assume "\<exists>w1. refs w1 = refs w \<and>
            prune_loop e (take (length turn_refs - 100) turn_refs) s w1 = (s', w')"
    then obtain w1 where w1: "refs w1 = refs w" "prune_loop e doomed s w1 = (s', w')"
      by (auto simp: assms(3))
    show ?thesis by (rule prune_loop_sound [OF w1(2) pre]) (simp add: w1(1) inv)
  qed
  show ?thesis using A B C by blast
qed

theorem prune_evicts_only_the_deleted_witness:
  "map_of (checkpoints (fst (pruneCheckpoints (calm 1700000200000)
      (demo_ext\<lparr>checkpoints := [(''e0'', ''checkpoint-1700000000000-e0''),
                                 (''e100'', ''checkpoint-1700000100000-e100'')]\<rparr>)
      (demo_world\<lparr>refs := timeline ''checkpoint-'' 101\<rparr>)))) ''e0'' = None \<and>
   map_of (checkpoints (fst (pruneCheckpoints (calm 1700000200000)
      (demo_ext\<lparr>checkpoints := [(''e0'', ''checkpoint-1700000000000-e0''),
                                 (''e100'', ''checkpoint-1700000100000-e100'')]\<rparr>)
      (demo_world\<lparr>refs := timeline ''checkpoint-'' 101\<rparr>)))) ''e100'' =
     Some ''checkpoint-1700000100000-e100'' \<and>
   ''refs/pi-checkpoints/checkpoint-1700000100000-e100''
     \<in> fst ` set (refs (snd (pruneCheckpoints (calm 1700000200000)
      (demo_ext\<lparr>checkpoints := [(''e0'', ''checkpoint-1700000000000-e0''),
                                 (''e100'', ''checkpoint-1700000100000-e100'')]\<rparr>)
      (demo_world\<lparr>refs := timeline ''checkpoint-'' 101\<rparr>))))"
proof -
  let ?s = "demo_ext\<lparr>checkpoints := [(''e0'', ''checkpoint-1700000000000-e0''),
                                 (''e100'', ''checkpoint-1700000100000-e100'')]\<rparr>"
  let ?w = "demo_world\<lparr>refs := timeline ''checkpoint-'' 101\<rparr>"
  let ?e = "calm 1700000200000"
  obtain s' w' where run: "pruneCheckpoints ?e ?s ?w = (s', w')" by (cases "pruneCheckpoints ?e ?s ?w")
  have L: "filter is_checkpoint_ref (for_each_ref (refs ?w)) = map fst (timeline ''checkpoint-'' 101)"
    using turn_refs_timeline [of "''checkpoint-''" 101] by simp
  have D: "take (length (map fst (timeline ''checkpoint-'' 101)) - 100) (map fst (timeline ''checkpoint-'' 101)) =
           [''refs/pi-checkpoints/checkpoint-1700000000000-e0'']"
    using timeline_Cons [of "''checkpoint-''" 100] by (simp add: REF_PREFIX_def)
  have names: "fst ` set (refs w') = fst ` set (timeline ''checkpoint-'' 101) -
           {''refs/pi-checkpoints/checkpoint-1700000000000-e0''}"
    using timeline_pruned_names [of "''checkpoint-''" 1700000200000 ?s] run
    by (simp add: REF_PREFIX_def)
  have m0: "''refs/pi-checkpoints/checkpoint-1700000000000-e0'' \<in> fst ` set (timeline ''checkpoint-'' 101)"
    using timeline_member [of 0 101 "''checkpoint-''"]
    by (simp add: REF_PREFIX_def show_nat.simps digit_char_def)
  have m100: "''refs/pi-checkpoints/checkpoint-1700000100000-e100'' \<in> fst ` set (timeline ''checkpoint-'' 101)"
    using timeline_member [of 100 101 "''checkpoint-''"]
    by (simp add: REF_PREFIX_def show_nat.simps digit_char_def)
  have dec: "match_checkpoint ''checkpoint-1700000000000-e0'' = Some (''1700000000000'', ''e0'')"
    "match_checkpoint ''checkpoint-1700000100000-e100'' = Some (''1700000100000'', ''e100'')"
    by (simp_all add: match_checkpoint_def startsWith_def is_digit_def is_line_terminator_def)
  have inv: "\<forall>E v. map_of (checkpoints ?s) E = Some v \<longrightarrow>
              map_option snd (match_checkpoint v) = Some E \<and>
              REF_PREFIX @ v \<in> fst ` set (refs ?w)"
    using m0 m100 dec by (auto simp: REF_PREFIX_def split: if_splits)
  note t = prune_evicts_only_the_deleted [OF run L [symmetric] refl]
  have keep: "map_of (checkpoints s') ''e100'' = Some ''checkpoint-1700000100000-e100''"
    using t [THEN conjunct2, THEN conjunct1, rule_format,
        of "''e100''" "''checkpoint-1700000100000-e100''"]
    unfolding D by (simp add: REF_PREFIX_def)
  have sound: "\<forall>E v. map_of (checkpoints s') E = Some v \<longrightarrow>
              map_option snd (match_checkpoint v) = Some E \<and>
              REF_PREFIX @ v \<in> fst ` set (refs w')"
    using t [THEN conjunct2, THEN conjunct2] inv by blast
  have gone: "map_of (checkpoints s') ''e0'' = None"
  proof (rule ccontr)
    assume "map_of (checkpoints s') ''e0'' \<noteq> None"
    then obtain v where v: "map_of (checkpoints s') ''e0'' = Some v" by auto
    then have "map_of (checkpoints ?s) ''e0'' = Some v"
      using t [THEN conjunct1, rule_format, of "''e0''"] by auto
    then have "v = ''checkpoint-1700000000000-e0''" by simp
    then have "''refs/pi-checkpoints/checkpoint-1700000000000-e0'' \<in> fst ` set (refs w')"
      using sound v by (auto simp: REF_PREFIX_def)
    then show False using names by simp
  qed
  have there: "''refs/pi-checkpoints/checkpoint-1700000100000-e100'' \<in> fst ` set (refs w')"
    using sound keep by (auto simp: REF_PREFIX_def)
  show ?thesis using gone keep there by (simp add: run)
qed

section \<open>Ref names carry no session identity\<close>

text \<open>
  C1. The claim is that the ref committed at the end of turn 0 is named
  \<open>refs/pi-checkpoints/checkpoint-{sessionId}-{timestampMs}-{sanitizedEntryId}\<close> and
  that the map then holds it for the sanitized entry id. index.ts has no session
  identity: at turn 0 with timestamp 1700000000000 and user entry \<open>e1\<close> it writes
  \<open>refs/pi-checkpoints/checkpoint-1700000000000-e1\<close>, which is the name of the claim
  for no session id, and maps \<open>e1\<close> to \<open>checkpoint-1700000000000-e1\<close>.
\<close>

theorem turn_end_writes_unscoped_name:
  "turn_end (demo_ctx (\<lambda>opts. None)) (calm 1700000005000)
     \<lparr>turnIndex = 0, timestamp = 1700000000000\<rparr>
     (demo_ext\<lparr>pendingCheckpoint :=
        Some (\<lparr>ctree = worktree demo_world, cdate = 1700000000\<rparr>, 1700000000000)\<rparr>)
     demo_world =
   (demo_ext\<lparr>checkpoints := [(''e1'', ''checkpoint-1700000000000-e1'')]\<rparr>,
    demo_world
      \<lparr>refs := [(''refs/pi-checkpoints/checkpoint-1700000000000-e1'',
                 \<lparr>ctree = worktree demo_world, cdate = 1700000000\<rparr>)],
       trace := [UpdateRef ''refs/pi-checkpoints/checkpoint-1700000000000-e1''
                   \<lparr>ctree = worktree demo_world, cdate = 1700000000\<rparr>,
                 ForEachRef],
       shown := [SetStatus (Some 1), Notify ''Checkpoint 1 saved'' ''info'']\<rparr>) \<and>
   (\<forall>sid. ''refs/pi-checkpoints/checkpoint-1700000000000-e1'' \<noteq>
          REF_PREFIX @ ''checkpoint-'' @ sid @ ''-'' @ show_nat 1700000000000 @ ''-'' @ ''e1'')"
proof -
  have user: "findUserMessageEntry (demo_ctx (\<lambda>opts. None)) =
      Some \<lparr>entry_id = ''e1'', entry_type = ''message'', message_role = Some ''user''\<rparr>"
    by (simp add: findUserMessageEntry_def demo_ctx_def is_user_message_def)
  have sane: "sanitizeForRef ''e1'' = ''e1''"
    by (simp add: sanitizeForRef_def is_ref_safe_def is_digit_def)
  have ts: "show_nat 1700000000000 = ''1700000000000''" "show_nat (Suc 0) = ''1''"
    by (simp_all add: show_nat.simps digit_char_def)
  have cp: "is_checkpoint_ref ''refs/pi-checkpoints/checkpoint-1700000000000-e1''"
    unfolding is_checkpoint_ref_def
    by (intro conjI no_b_no_backup no_u_no_resume) simp_all
  have listing: "for_each_ref [(''refs/pi-checkpoints/checkpoint-1700000000000-e1'', k)] =
      [''refs/pi-checkpoints/checkpoint-1700000000000-e1'']" for k
    by (simp add: for_each_ref_def startsWith_def REF_PREFIX_def)
  have run: "turn_end (demo_ctx (\<lambda>opts. None)) (calm 1700000005000)
     \<lparr>turnIndex = 0, timestamp = 1700000000000\<rparr>
     (demo_ext\<lparr>pendingCheckpoint :=
        Some (\<lparr>ctree = worktree demo_world, cdate = 1700000000\<rparr>, 1700000000000)\<rparr>)
     demo_world =
   (demo_ext\<lparr>checkpoints := [(''e1'', ''checkpoint-1700000000000-e1'')]\<rparr>,
    demo_world
      \<lparr>refs := [(''refs/pi-checkpoints/checkpoint-1700000000000-e1'',
                 \<lparr>ctree = worktree demo_world, cdate = 1700000000\<rparr>)],
       trace := [UpdateRef ''refs/pi-checkpoints/checkpoint-1700000000000-e1''
                   \<lparr>ctree = worktree demo_world, cdate = 1700000000\<rparr>,
                 ForEachRef],
       shown := [SetStatus (Some 1), Notify ''Checkpoint 1 saved'' ''info'']\<rparr>)"
    unfolding turn_end_def user
    by (simp add: Let_def sane ts exec_def git_def calm_def pruneCheckpoints_def stdout_names_def
        listing cp MAX_CHECKPOINTS_def updateStatus_def notify_def REF_PREFIX_def
        demo_ext_def demo_world_def demo_ctx_def)
  have other: "''refs/pi-checkpoints/checkpoint-1700000000000-e1'' \<noteq>
          REF_PREFIX @ ''checkpoint-'' @ sid @ ''-'' @ show_nat 1700000000000 @ ''-'' @ ''e1''" for sid
  proof
    assume "''refs/pi-checkpoints/checkpoint-1700000000000-e1'' =
          REF_PREFIX @ ''checkpoint-'' @ sid @ ''-'' @ show_nat 1700000000000 @ ''-'' @ ''e1''"
    then have "length ''refs/pi-checkpoints/checkpoint-1700000000000-e1'' =
          length (REF_PREFIX @ ''checkpoint-'' @ sid @ ''-'' @ show_nat 1700000000000 @ ''-'' @ ''e1'')"
      by (rule arg_cong)
    then show False by (simp add: ts REF_PREFIX_def)
  qed
  show ?thesis using run other by blast
qed

text \<open>
  C2. The claim is that a session never deletes a ref that carries another session's id.
  \<open>pruneCheckpoints\<close> filters the listing by kind only: when the store holds the 101 turn
  checkpoints of session \<open>s2\<close>, a prune pass of the running session deletes the oldest
  of them.
\<close>

theorem prune_deletes_refs_of_another_session:
  "''refs/pi-checkpoints/checkpoint-s2-1700000000000-e0''
     \<in> fst ` set (refs (demo_world\<lparr>refs := timeline ''checkpoint-s2-'' 101\<rparr>)) \<and>
   ''refs/pi-checkpoints/checkpoint-s2-1700000000000-e0''
     \<notin> fst ` set (refs (snd (pruneCheckpoints (calm 1700000200000) demo_ext
                               (demo_world\<lparr>refs := timeline ''checkpoint-s2-'' 101\<rparr>))))"
proof -
  have m: "''refs/pi-checkpoints/checkpoint-s2-1700000000000-e0''
             \<in> fst ` set (timeline ''checkpoint-s2-'' 101)"
    using timeline_member [of 0 101 "''checkpoint-s2-''"]
    by (simp add: REF_PREFIX_def show_nat.simps digit_char_def)
  have "''refs/pi-checkpoints/checkpoint-s2-1700000000000-e0''
     \<notin> fst ` set (refs (snd (pruneCheckpoints (calm 1700000200000) demo_ext
                               (demo_world\<lparr>refs := timeline ''checkpoint-s2-'' 101\<rparr>))))"
    unfolding timeline_pruned_names [of "''checkpoint-s2-''", simplified]
    by (simp add: REF_PREFIX_def)
  then show ?thesis using m by simp
qed

section \<open>Rebuilding the checkpoint map\<close>

text \<open>
  C8. \<open>initializeForSession\<close> clears the state and then rebuilds the map from the
  listing. When it runs with a UI inside a work tree and the listing succeeds, the map
  afterwards is a function of the ref store alone, whatever the map held before: it is
  the fold of the rebuild step over the listing from the empty map, and its lookup is
  the mapping that the specification derives from the listing (for each entry id the
  latest turn checkpoint that decodes; resume refs, before-restore refs and other
  names are skipped). Running it again yields the same map; the resume ref that the
  first run may have written does not count.
\<close>

theorem rebuild_is_a_function_of_the_store:
  assumes "hasUI cx" and "inside_work_tree w" and "\<not> broken e RevParseInside"
    and "\<not> broken e ForEachRef" and "initializeForSession cx e s w = (s', w')"
  shows "checkpoints s' = fold rebuild_step (for_each_ref (refs w)) [] \<and>
         (\<forall>entryId. map_of (checkpoints s') entryId = derived_map (for_each_ref (refs w)) entryId) \<and>
         (\<forall>cx2 e2. hasUI cx2 \<and> \<not> broken e2 RevParseInside \<and> \<not> broken e2 ForEachRef \<longrightarrow>
            checkpoints (fst (initializeForSession cx2 e2 s' w')) = checkpoints s')"
proof -
  note r = initializeForSession_run [OF assms]
  have a: "checkpoints s' = fold rebuild_step (for_each_ref (refs w)) []" using r by simp
  have b: "map_of (checkpoints s') entryId = derived_map (for_each_ref (refs w)) entryId" for entryId
    unfolding a map_of_rebuild by (simp split: option.split)
  have same: "fold rebuild_step (for_each_ref (refs w')) [] = fold rebuild_step (for_each_ref (refs w)) []"
    using r rebuild_ignores_resume_ref by auto
  have c: "checkpoints (fst (initializeForSession cx2 e2 s' w')) = checkpoints s'"
    if h: "hasUI cx2 \<and> \<not> broken e2 RevParseInside \<and> \<not> broken e2 ForEachRef" for cx2 e2
  proof -
    obtain s2 w2 where run2: "initializeForSession cx2 e2 s' w' = (s2, w2)"
      by (cases "initializeForSession cx2 e2 s' w'")
    have "inside_work_tree w'" using r assms(2) by simp
    from initializeForSession_run [OF _ this _ _ run2] h
    have "checkpoints s2 = fold rebuild_step (for_each_ref (refs w')) []" by simp
    then show ?thesis using run2 same a by simp
  qed
  show ?thesis using a b c by blast
qed

theorem rebuild_is_a_function_of_the_store_witness:
  "hasUI (demo_ctx (\<lambda>opts. None)) \<and> inside_work_tree demo_world \<and>
   \<not> broken (calm 1700000005000) RevParseInside \<and> \<not> broken (calm 1700000005000) ForEachRef \<and>
   checkpoints (fst (initializeForSession (demo_ctx (\<lambda>opts. None)) (calm 1700000005000)
     (demo_ext\<lparr>checkpoints := [(''stale'', ''checkpoint-1600000000000-stale'')]\<rparr>)
     (demo_world\<lparr>refs :=
        [(''refs/pi-checkpoints/checkpoint-1700000002000-e1'', \<lparr>ctree = Map.empty, cdate = 1700000002\<rparr>),
         (''refs/pi-checkpoints/checkpoint-1700000001000-e1'', \<lparr>ctree = Map.empty, cdate = 1700000001\<rparr>),
         (''refs/pi-checkpoints/checkpoint-resume-1700000000000'', \<lparr>ctree = Map.empty, cdate = 1700000000\<rparr>),
         (''refs/pi-checkpoints/before-restore-1700000003000'', \<lparr>ctree = Map.empty, cdate = 1700000003\<rparr>),
         (''refs/pi-checkpoints/checkpoint-x'', \<lparr>ctree = Map.empty, cdate = 1700000004\<rparr>)]\<rparr>))) =
     [(''e1'', ''checkpoint-1700000002000-e1'')]"
proof -
  let ?cx = "demo_ctx (\<lambda>opts. None)"
  let ?e = "calm 1700000005000"
  let ?rs = "[(''refs/pi-checkpoints/checkpoint-1700000002000-e1'', \<lparr>ctree = Map.empty, cdate = 1700000002\<rparr>),
         (''refs/pi-checkpoints/checkpoint-1700000001000-e1'', \<lparr>ctree = Map.empty, cdate = 1700000001\<rparr>),
         (''refs/pi-checkpoints/checkpoint-resume-1700000000000'', \<lparr>ctree = Map.empty, cdate = 1700000000\<rparr>),
         (''refs/pi-checkpoints/before-restore-1700000003000'', \<lparr>ctree = Map.empty, cdate = 1700000003\<rparr>),
         (''refs/pi-checkpoints/checkpoint-x'', \<lparr>ctree = Map.empty, cdate = 1700000004\<rparr>)]"
  let ?w = "demo_world\<lparr>refs := ?rs\<rparr>"
  let ?s = "demo_ext\<lparr>checkpoints := [(''stale'', ''checkpoint-1600000000000-stale'')]\<rparr>"
  have g: "hasUI ?cx" "inside_work_tree ?w" "\<not> broken ?e RevParseInside" "\<not> broken ?e ForEachRef"
    by (simp_all add: demo_ctx_def demo_world_def calm_def)
  have listing: "for_each_ref ?rs =
     [''refs/pi-checkpoints/checkpoint-resume-1700000000000'',
      ''refs/pi-checkpoints/checkpoint-1700000001000-e1'',
      ''refs/pi-checkpoints/checkpoint-1700000002000-e1'',
      ''refs/pi-checkpoints/before-restore-1700000003000'',
      ''refs/pi-checkpoints/checkpoint-x'']"
    by (simp add: for_each_ref_def startsWith_def REF_PREFIX_def)
  have built: "fold rebuild_step (for_each_ref ?rs) [] = [(''e1'', ''checkpoint-1700000002000-e1'')]"
    unfolding listing
    by (simp add: rebuild_step_def REF_PREFIX_def startsWith_def match_checkpoint_def
        is_digit_def is_line_terminator_def)
  note t = rebuild_is_a_function_of_the_store [OF g prod.collapse [symmetric], of ?s]
  have "checkpoints (fst (initializeForSession ?cx ?e ?s ?w)) = [(''e1'', ''checkpoint-1700000002000-e1'')]"
    using t [THEN conjunct1] built by simp
  then show ?thesis using g by (simp add: demo_world_def)
qed

section \<open>Restoring with a backup\<close>





text \<open>
  C3, as amended. If the store holds at most one before-restore ref before the call,
  the name of the new backup is not yet taken, and the lookup, the capture, the write
  and the deletion succeed, then after \<open>restoreWithBackup\<close> returns, whether or not the
  checkout worked, the store holds exactly one before-restore ref: the new one, on the
  snapshot of the working tree as it was before the call.
\<close>

theorem one_backup_after_restore:
  assumes "\<forall>c. broken e c \<longrightarrow> (\<exists>x. c = Checkout x)"
    and "inside_work_tree w"
    and "length (filter (\<lambda>r. is_backup_ref (fst r)) (refs w)) \<le> 1"
    and "REF_PREFIX @ BEFORE_RESTORE_PREFIX @ show_nat (now e) \<notin> fst ` set (refs w)"
    and "restoreWithBackup e t s w = (ok, s', w')"
  shows "filter (\<lambda>r. is_backup_ref (fst r)) (refs w') =
           [(REF_PREFIX @ BEFORE_RESTORE_PREFIX @ show_nat (now e),
             \<lparr>ctree = worktree w, cdate = now e div 1000\<rparr>)]"
  using restoreWithBackup_effect [OF assms(1,2,5) refl refl, THEN conjunct1]
    backups_after_rotation [OF assms(3,4) is_backup_ref_new]
  by simp

theorem one_backup_after_restore_witness:
  "inside_work_tree backed_world \<and>
   length (filter (\<lambda>r. is_backup_ref (fst r)) (refs backed_world)) \<le> 1 \<and>
   ''refs/pi-checkpoints/before-restore-1700000005000'' \<notin> fst ` set (refs backed_world) \<and>
   filter (\<lambda>r. is_backup_ref (fst r))
     (refs (snd (snd (restoreWithBackup (unheard 1700000005000)
        (ByRef ''refs/pi-checkpoints/checkpoint-1700000000000-e1'') demo_ext backed_world)))) =
     [(''refs/pi-checkpoints/before-restore-1700000005000'',
       \<lparr>ctree = [''a.txt'' \<mapsto> ''1''], cdate = 1700000005\<rparr>)]"
proof -
  let ?e = "unheard 1700000005000"
  let ?t = "ByRef ''refs/pi-checkpoints/checkpoint-1700000000000-e1''"
  have only: "\<forall>c. broken ?e c \<longrightarrow> (\<exists>x. c = Checkout x)"
    by (auto simp: unheard_def split: cmd.splits)
  have few: "length (filter (\<lambda>r. is_backup_ref (fst r)) (refs backed_world)) \<le> 1"
    by (simp add: backed_world_backups)
  have fresh: "''refs/pi-checkpoints/before-restore-1700000005000'' \<notin> fst ` set (refs backed_world)"
    by (simp add: backed_world_def saved_world_def demo_world_def)
  have fresh': "REF_PREFIX @ BEFORE_RESTORE_PREFIX @ show_nat (now ?e) \<notin> fst ` set (refs backed_world)"
    using fresh by (simp add: unheard_def new_backup_name)
  obtain ok s' w' where run: "restoreWithBackup ?e ?t demo_ext backed_world = (ok, s', w')"
    by (cases "restoreWithBackup ?e ?t demo_ext backed_world") auto
  note t = one_backup_after_restore [OF only inside_examples(2) few fresh' run]
  have wt: "worktree backed_world = [''a.txt'' \<mapsto> ''1'']"
    by (simp add: backed_world_def saved_world_def demo_world_def)
  have "filter (\<lambda>r. is_backup_ref (fst r)) (refs w') =
     [(''refs/pi-checkpoints/before-restore-1700000005000'',
       \<lparr>ctree = [''a.txt'' \<mapsto> ''1''], cdate = 1700000005\<rparr>)]"
    using t by (simp add: unheard_def new_backup_name wt)
  then show ?thesis using inside_examples(2) few fresh by (simp add: run)
qed

text \<open>
  C3 as stated fails. A call whose capture fails on a store without a backup returns
  false and leaves no before-restore ref; a call that succeeds on a store with two
  before-restore refs deletes only the newest of them and leaves two.
\<close>

theorem backups_after_restore_counterexample:
  "fst (restoreWithBackup (no_capture 1700000005000)
          (ByRef ''refs/pi-checkpoints/checkpoint-1700000000000-e1'') demo_ext saved_world) = False \<and>
   length (filter (\<lambda>r. is_backup_ref (fst r))
     (refs (snd (snd (restoreWithBackup (no_capture 1700000005000)
          (ByRef ''refs/pi-checkpoints/checkpoint-1700000000000-e1'') demo_ext saved_world))))) = 0 \<and>
   length (filter (\<lambda>r. is_backup_ref (fst r)) (refs cluttered_world)) = 2 \<and>
   fst (restoreWithBackup (calm 1700000005000)
          (ByRef ''refs/pi-checkpoints/checkpoint-1700000000000-e1'') demo_ext cluttered_world) = True \<and>
   length (filter (\<lambda>r. is_backup_ref (fst r))
     (refs (snd (snd (restoreWithBackup (calm 1700000005000)
          (ByRef ''refs/pi-checkpoints/checkpoint-1700000000000-e1'') demo_ext cluttered_world))))) = 2"
proof -
  let ?t = "ByRef ''refs/pi-checkpoints/checkpoint-1700000000000-e1''"
  have a: "fst (restoreWithBackup (no_capture 1700000005000) ?t demo_ext saved_world) = False"
    "length (filter (\<lambda>r. is_backup_ref (fst r))
       (refs (snd (snd (restoreWithBackup (no_capture 1700000005000) ?t demo_ext saved_world))))) = 0"
    using saved_world_backups by (simp_all add: failed_capture)
  have b0: "length (filter (\<lambda>r. is_backup_ref (fst r)) (refs cluttered_world)) = 2"
    by (simp add: cluttered_world_backups)
  have latest: "latest_backup (refs cluttered_world) =
      Some (''refs/pi-checkpoints/before-restore-1700000003000'',
            \<lparr>ctree = [''a.txt'' \<mapsto> ''3''], cdate = 1700000003\<rparr>)"
    by (simp add: latest_backup_def cluttered_world_backups)
  obtain ok s' w' where run: "restoreWithBackup (calm 1700000005000) ?t demo_ext cluttered_world = (ok, s', w')"
    by (cases "restoreWithBackup (calm 1700000005000) ?t demo_ext cluttered_world") auto
  have calm: "\<forall>c. broken (calm 1700000005000) c \<longrightarrow> (\<exists>x. c = Checkout x)" by (simp add: calm_def)
  note E = restoreWithBackup_effect [OF calm inside_examples(3) run refl refl]
  have refs': "refs w' =
      AList.delete ''refs/pi-checkpoints/before-restore-1700000003000''
        (AList.update ''refs/pi-checkpoints/before-restore-1700000005000''
           \<lparr>ctree = worktree cluttered_world, cdate = now (calm 1700000005000) div 1000\<rparr>
           (refs cluttered_world))"
    using E latest by (simp add: new_backup_name calm_def)
  have two: "length (filter (\<lambda>r. is_backup_ref (fst r)) (refs w')) = 2"
    unfolding refs'
    by (simp add: cluttered_world_def saved_world_def demo_world_def AList.delete_eq
        is_backup_ref_def startsWith_def REF_PREFIX_def BEFORE_RESTORE_PREFIX_def)
  have res: "resolve ?t w' = Some \<lparr>ctree = [''a.txt'' \<mapsto> ''0''], cdate = 1700000000\<rparr>"
    unfolding resolve_def refs'
    by (simp add: cluttered_world_def saved_world_def demo_world_def AList.delete_eq)
  have ok: "ok" using E res by (simp add: calm_def)
  show ?thesis using a b0 two ok by (simp add: run)
qed

section \<open>Undoing a restore\<close>





end
